theory Spec2Isabelle
  imports Main
begin

section \<open>Data model (main.go, lines 28--79)\<close>

text \<open>
  The Go program keeps one \<^verbatim>\<open>Game\<close> struct whose board is an 8 by 8 array of pointers to
  \<^verbatim>\<open>ChessPiece\<close>, indexed \<^verbatim>\<open>board[y][x]\<close> (rank first, file second); \<^verbatim>\<open>nil\<close> is an
  empty cell. Every piece is allocated once by \<^verbatim>\<open>createPiece\<close> and its pointer lives in
  exactly one cell, so a cell is modelled by the value of the piece it points to
  (\<open>None\<close> for \<^verbatim>\<open>nil\<close>); a write through the pointer (\<^verbatim>\<open>p.HasMoved = true\<close>) is a write
  to the cell that holds it. Go's \<^verbatim>\<open>int\<close> is modelled by \<open>int\<close>: \<^verbatim>\<open>isMoveLegal\<close> checks
  the range of the destination before any arithmetic on it, every origin it is given
  indexes the board, and the counters stay far below \<open>2 ^ 63\<close>.
\<close>

datatype Color = Black | White

datatype PieceType = Pawn | Bishop | Rook | Knight | Queen | King

record ChessPiece =
  Type :: PieceType
  Color :: Color
  SpriteID :: int
  HasMoved :: bool

text \<open>
  A run of the program either returns a value, or panics (an index out of range, a
  \<^verbatim>\<open>nil\<close> dereference), or does not return at all. \<open>Some (Inr v)\<close> is a normal return,
  \<open>Some (Inl e)\<close> a panic, and \<open>None\<close> a run that has not returned (in Go an unbounded
  recursion ends the process when the stack limit is reached; no caller sees a value).
\<close>

datatype error = IndexOutOfRange | NilDereference

type_synonym 'a result = "(error + 'a) option"

abbreviation Ret :: "'a \<Rightarrow> 'a result" where
  "Ret v \<equiv> Some (Inr v)"

abbreviation Panic :: "error \<Rightarrow> 'a result" where
  "Panic e \<equiv> Some (Inl e)"

type_synonym Board = "int \<Rightarrow> int \<Rightarrow> ChessPiece option"

text \<open>
  The fields of \<^verbatim>\<open>Game\<close>. \<^verbatim>\<open>rng\<close> is never read and is left out; \<^verbatim>\<open>whiteTime\<close> and
  \<^verbatim>\<open>blackTime\<close> are \<^verbatim>\<open>float64\<close> counters that only ever hold whole numbers (they start
  at \<^verbatim>\<open>minutes * 60 * 60\<close> and are decremented by one), modelled by \<open>int\<close>. The
  package-level variable \<^verbatim>\<open>wallet\<close> is carried in the same record.
\<close>

record Game =
  board :: Board
  selectedX :: int
  selectedY :: int
  activeColor :: Color
  hustlerName :: string
  currentDialog :: string
  whiteTime :: int
  blackTime :: int
  gameOver :: bool
  gameStarted :: bool
  wager :: int
  initialMins :: int
  epX :: int
  epY :: int
  winner :: int
  moveCount :: int
  frankThinkTime :: int
  promoting :: bool
  promX :: int
  promY :: int
  wallet :: int

definition onBoard :: "int \<Rightarrow> int \<Rightarrow> bool" where
  "onBoard x y = (0 \<le> x \<and> x \<le> 7 \<and> 0 \<le> y \<and> y \<le> 7)"

text \<open>\<^verbatim>\<open>g.board[y][x]\<close> with Go's bounds check.\<close>

definition cellAt :: "Game \<Rightarrow> int \<Rightarrow> int \<Rightarrow> (ChessPiece option) result" where
  "cellAt g x y = (if onBoard x y then Ret (board g y x) else Panic IndexOutOfRange)"

text \<open>\<^verbatim>\<open>g.board[y][x] = v\<close> for indices already known to be in range.\<close>

definition setCell :: "Game \<Rightarrow> int \<Rightarrow> int \<Rightarrow> ChessPiece option \<Rightarrow> Game" where
  "setCell g x y v = g\<lparr>board := (board g)(y := (board g y)(x := v))\<rparr>"

text \<open>The cells in the order of the loops \<^verbatim>\<open>for y := 0; y < 8; y++ { for x := 0; x < 8; x++\<close>.\<close>

definition squares :: "(int \<times> int) list" where
  "squares = concat (map (\<lambda>y. map (\<lambda>x. (x, y)) [0..7]) [0..7])"

text \<open>\<^verbatim>\<open>1 - c\<close> on the two colours (\<^verbatim>\<open>Black\<close> is 0, \<^verbatim>\<open>White\<close> is 1).\<close>

definition opp :: "Color \<Rightarrow> Color" where
  "opp c = (case c of Black \<Rightarrow> White | White \<Rightarrow> Black)"

section \<open>Move legality (main.go, lines 121--227)\<close>

definition abs_i :: "int \<Rightarrow> int" where
  "abs_i v = (if v < 0 then - v else v)"

text \<open>Go's integer division, which truncates towards zero.\<close>

definition quot_i :: "int \<Rightarrow> int \<Rightarrow> int" where
  "quot_i a b = sgn a * sgn b * (\<bar>a\<bar> div \<bar>b\<bar>)"

text \<open>
  The loop of \<^verbatim>\<open>isPathClear\<close>. Nothing in the loop itself bounds it (with a zero step it
  would spin), so it is a partial function; \<open>isPathClear_total\<close> below shows that
  \<^verbatim>\<open>isPathClear\<close> always ends.
\<close>

partial_function (option) pathLoop ::
  "Game \<Rightarrow> int \<Rightarrow> int \<Rightarrow> int \<Rightarrow> int \<Rightarrow> int \<Rightarrow> int \<Rightarrow> bool result" where
  "pathLoop g sx sy tx ty cx cy =
     (if cx \<noteq> tx \<or> cy \<noteq> ty then
        (case cellAt g cx cy of
           None \<Rightarrow> None
         | Some (Inl e) \<Rightarrow> Panic e
         | Some (Inr (Some q)) \<Rightarrow> Ret False
         | Some (Inr None) \<Rightarrow> pathLoop g sx sy tx ty (cx + sx) (cy + sy))
      else Ret True)"

definition isPathClear :: "Game \<Rightarrow> int \<Rightarrow> int \<Rightarrow> int \<Rightarrow> int \<Rightarrow> bool result" where
  "isPathClear g fx fy tx ty =
     (let dx = tx - fx; dy = ty - fy;
          sx = (if dx \<noteq> 0 then quot_i dx (abs_i dx) else 0);
          sy = (if dy \<noteq> 0 then quot_i dy (abs_i dy) else 0)
      in pathLoop g sx sy tx ty (fx + sx) (fy + sy))"

text \<open>The first loop of \<^verbatim>\<open>isInCheck\<close>: the last king of colour \<open>c\<close> in scan order, or (-1, -1).\<close>

definition findKing :: "Game \<Rightarrow> Color \<Rightarrow> int \<times> int" where
  "findKing g c =
     fold (\<lambda>(x, y) k.
            (case board g y x of
               Some p \<Rightarrow> if Type p = King \<and> Color p = c then (x, y) else k
             | None \<Rightarrow> k))
          squares (- 1, - 1)"

text \<open>\<^verbatim>\<open>map[Color]int{White: 6, Black: 1}[p.Color]\<close>\<close>

definition startRank :: "Color \<Rightarrow> int" where
  "startRank c = (case c of White \<Rightarrow> 6 | Black \<Rightarrow> 1)"

text \<open>
  \<^verbatim>\<open>isMoveLegal\<close>, \<^verbatim>\<open>isInCheck\<close> and \<^verbatim>\<open>isSquareAttacked\<close> call each other: the castling
  branch of \<^verbatim>\<open>isMoveLegal\<close> calls \<^verbatim>\<open>isInCheck\<close>, which calls \<^verbatim>\<open>isSquareAttacked\<close>, which
  calls \<^verbatim>\<open>isMoveLegal\<close> for every piece of the attacking colour. Nothing in the source
  bounds this recursion, so the model carries a budget \<open>n\<close>: the number of nested calls
  of \<^verbatim>\<open>isInCheck\<close> still allowed. A call that needs more gives \<open>None\<close>; the program's call
  returns \<open>r\<close> exactly when some budget gives \<open>Some r\<close>. \<open>attackLoop\<close> is the double loop
  of \<^verbatim>\<open>isSquareAttacked\<close> over the cells still to visit.
\<close>

function isMoveLegal :: "nat \<Rightarrow> Game \<Rightarrow> ChessPiece \<Rightarrow> int \<Rightarrow> int \<Rightarrow> int \<Rightarrow> int \<Rightarrow> bool result"
  and isInCheck :: "nat \<Rightarrow> Game \<Rightarrow> Color \<Rightarrow> bool result"
  and isSquareAttacked :: "nat \<Rightarrow> Game \<Rightarrow> int \<Rightarrow> int \<Rightarrow> Color \<Rightarrow> bool result"
  and attackLoop :: "nat \<Rightarrow> Game \<Rightarrow> int \<Rightarrow> int \<Rightarrow> Color \<Rightarrow> (int \<times> int) list \<Rightarrow> bool result"
where
  "isMoveLegal n g p fx fy tx ty =
     (if tx < 0 \<or> tx > 7 \<or> ty < 0 \<or> ty > 7 then Ret False
      else
        let target = board g ty tx in
        if (case target of Some t \<Rightarrow> Color t = Color p | None \<Rightarrow> False) then Ret False
        else
          let dx = abs_i (tx - fx); dy = abs_i (ty - fy) in
          (case Type p of
             Knight \<Rightarrow> Ret ((dx = 2 \<and> dy = 1) \<or> (dx = 1 \<and> dy = 2))
           | Rook \<Rightarrow>
               if fx = tx \<or> fy = ty then isPathClear g fx fy tx ty else Ret False
           | Bishop \<Rightarrow>
               if dx = dy then isPathClear g fx fy tx ty else Ret False
           | Queen \<Rightarrow>
               if dx = dy \<or> fx = tx \<or> fy = ty then isPathClear g fx fy tx ty else Ret False
           | King \<Rightarrow>
               if dx \<le> 1 \<and> dy \<le> 1 then Ret True
               else if HasMoved p \<or> fy \<noteq> ty \<or> dx \<noteq> 2 then Ret False
               else
                 (case isInCheck n g (Color p) of
                    None \<Rightarrow> None
                  | Some (Inl e) \<Rightarrow> Panic e
                  | Some (Inr chk) \<Rightarrow>
                      if chk then Ret False
                      else
                        let rx = (if tx > fx then 7 else 0) in
                        (case board g fy rx of
                           None \<Rightarrow> Ret False
                         | Some rook \<Rightarrow>
                             if Type rook = Rook \<and> \<not> HasMoved rook
                             then isPathClear g fx fy rx fy else Ret False))
           | Pawn \<Rightarrow>
               let dir = (if Color p = Black then 1 else - 1) in
               if fx = tx \<and> ty = fy + dir \<and> target = None then Ret True
               else
                 (case (if fx = tx \<and> ty = fy + 2 * dir \<and> fy = startRank (Color p)
                           \<and> target = None
                        then isPathClear g fx fy tx ty else Ret False) of
                    None \<Rightarrow> None
                  | Some (Inl e) \<Rightarrow> Panic e
                  | Some (Inr clear) \<Rightarrow>
                      if clear then Ret True
                      else if dx = 1 \<and> ty = fy + dir
                              \<and> (target \<noteq> None \<or> (tx = epX g \<and> ty = epY g))
                      then Ret True else Ret False)))"
| "isInCheck 0 g c = None"
| "isInCheck (Suc n) g c =
     (let (kx, ky) = findKing g c in
      if kx = - 1 then Ret False else isSquareAttacked n g kx ky (opp c))"
| "isSquareAttacked n g x y attackerColor = attackLoop n g x y attackerColor squares"
| "attackLoop n g x y attackerColor [] = Ret False"
| "attackLoop n g x y attackerColor ((fx, fy) # rest) =
     (case board g fy fx of
        None \<Rightarrow> attackLoop n g x y attackerColor rest
      | Some p \<Rightarrow>
          if Color p = attackerColor then
            (case isMoveLegal n g p fx fy x y of
               None \<Rightarrow> None
             | Some (Inl e) \<Rightarrow> Panic e
             | Some (Inr legal) \<Rightarrow>
                 if legal then Ret True else attackLoop n g x y attackerColor rest)
          else attackLoop n g x y attackerColor rest)"
  by pat_completeness auto
termination
  by (relation "inv_image (less_than <*lex*> less_than <*lex*> less_than)
      (\<lambda>a. case a of
          Inl (Inl (n, g, p, fx, fy, tx, ty)) \<Rightarrow> (n, 1::nat, 0::nat)
        | Inl (Inr (n, g, c)) \<Rightarrow> (n, 0, 0)
        | Inr (Inl (n, g, x, y, c)) \<Rightarrow> (n, 3, 0)
        | Inr (Inr (n, g, x, y, c, sq)) \<Rightarrow> (n, 2, length sq))") auto

declare isMoveLegal.simps [simp del]
declare isInCheck.simps(2) [simp del]
declare isSquareAttacked.simps [simp del]

text \<open>Sequencing: a panic or a run that does not return ends what follows it.\<close>

definition bindR :: "'a result \<Rightarrow> ('a \<Rightarrow> 'b result) \<Rightarrow> 'b result" where
  "bindR m f = (case m of None \<Rightarrow> None | Some (Inl e) \<Rightarrow> Panic e | Some (Inr v) \<Rightarrow> f v)"

section \<open>Legal moves (main.go, lines 229--252)\<close>

text \<open>
  The trial move \<^verbatim>\<open>g.board[ty][tx], g.board[fy][fx] = p, nil\<close> and its revert
  \<^verbatim>\<open>g.board[fy][fx], g.board[ty][tx] = p, orig\<close>; Go carries the two assignments out
  from left to right.
\<close>

definition simulateMove :: "Game \<Rightarrow> ChessPiece \<Rightarrow> int \<Rightarrow> int \<Rightarrow> int \<Rightarrow> int \<Rightarrow> Game" where
  "simulateMove g p fx fy tx ty = setCell (setCell g tx ty (Some p)) fx fy None"

definition undoMove ::
  "Game \<Rightarrow> ChessPiece \<Rightarrow> ChessPiece option \<Rightarrow> int \<Rightarrow> int \<Rightarrow> int \<Rightarrow> int \<Rightarrow> Game" where
  "undoMove g p orig fx fy tx ty = setCell (setCell g fx fy (Some p)) tx ty orig"

text \<open>
  \<^verbatim>\<open>hasLegalMoves\<close> writes to the board while it runs, so the model passes the game
  through and returns it with the answer. \<open>legalToLoop\<close> is the pair of inner loops over
  the destinations of one piece, \<open>legalFromLoop\<close> the pair of outer loops.
\<close>

fun legalToLoop ::
  "nat \<Rightarrow> Game \<Rightarrow> Color \<Rightarrow> ChessPiece \<Rightarrow> int \<Rightarrow> int \<Rightarrow> (int \<times> int) list \<Rightarrow> (bool \<times> Game) result"
where
  "legalToLoop n g c p fx fy [] = Ret (False, g)"
| "legalToLoop n g c p fx fy ((tx, ty) # rest) =
     (case isMoveLegal n g p fx fy tx ty of
        None \<Rightarrow> None
      | Some (Inl e) \<Rightarrow> Panic e
      | Some (Inr legal) \<Rightarrow>
          if legal then
            let orig = board g ty tx;
                g1 = simulateMove g p fx fy tx ty
            in (case isInCheck n g1 c of
                  None \<Rightarrow> None
                | Some (Inl e) \<Rightarrow> Panic e
                | Some (Inr chk) \<Rightarrow>
                    let safe = \<not> chk;
                        g2 = undoMove g1 p orig fx fy tx ty
                    in if safe then Ret (True, g2) else legalToLoop n g2 c p fx fy rest)
          else legalToLoop n g c p fx fy rest)"

fun legalFromLoop :: "nat \<Rightarrow> Game \<Rightarrow> Color \<Rightarrow> (int \<times> int) list \<Rightarrow> (bool \<times> Game) result" where
  "legalFromLoop n g c [] = Ret (False, g)"
| "legalFromLoop n g c ((fx, fy) # rest) =
     (case board g fy fx of
        None \<Rightarrow> legalFromLoop n g c rest
      | Some p \<Rightarrow>
          if Color p \<noteq> c then legalFromLoop n g c rest
          else
            (case legalToLoop n g c p fx fy squares of
               None \<Rightarrow> None
             | Some (Inl e) \<Rightarrow> Panic e
             | Some (Inr (found, g')) \<Rightarrow>
                 if found then Ret (True, g') else legalFromLoop n g' c rest))"

definition hasLegalMoves :: "nat \<Rightarrow> Game \<Rightarrow> Color \<Rightarrow> (bool \<times> Game) result" where
  "hasLegalMoves n g c = legalFromLoop n g c squares"

section \<open>Executing a move (main.go, lines 254--293)\<close>

text \<open>
  \<^verbatim>\<open>executeMove\<close> reads the moving piece \<^verbatim>\<open>p\<close> once and writes to it through the pointer
  after it has been put on its destination; the model computes the final value of the
  piece and stores that. The \<^verbatim>\<open>Printf\<close> on line 256 dereferences \<^verbatim>\<open>p\<close>, so an empty
  origin is a panic. Line 265 dereferences the rook the same way.
\<close>

definition castleRook :: "Game \<Rightarrow> ChessPiece \<Rightarrow> int \<Rightarrow> int \<Rightarrow> int \<Rightarrow> Game result" where
  \<comment> \<open>lines 258--266\<close>
  "castleRook g p fx fy tx =
     (if Type p = King \<and> abs_i (tx - fx) = 2 then
        let (rx, rtx) = (if tx > fx then (7, 5) else (0, 3)) in
        (case board g fy rx of
           None \<Rightarrow> Panic NilDereference
         | Some rook \<Rightarrow>
             Ret (setCell (setCell g rtx fy (Some (rook\<lparr>HasMoved := True\<rparr>))) rx fy None))
      else Ret g)"

definition capturePassant :: "Game \<Rightarrow> ChessPiece \<Rightarrow> int \<Rightarrow> int \<Rightarrow> int \<Rightarrow> Game result" where
  \<comment> \<open>lines 268--270\<close>
  "capturePassant g p fy tx ty =
     (if Type p = Pawn \<and> tx = epX g \<and> ty = epY g then
        (if onBoard tx fy then Ret (setCell g tx fy None) else Panic IndexOutOfRange)
      else Ret g)"

definition setPassant :: "Game \<Rightarrow> ChessPiece \<Rightarrow> int \<Rightarrow> int \<Rightarrow> int \<Rightarrow> Game" where
  \<comment> \<open>lines 271--274\<close>
  "setPassant g p fx fy ty =
     (let g1 = g\<lparr>epX := - 1, epY := - 1\<rparr> in
      if Type p = Pawn \<and> abs_i (ty - fy) = 2
      then g1\<lparr>epX := fx, epY := fy + quot_i (ty - fy) 2\<rparr> else g1)"

definition placePiece :: "Game \<Rightarrow> ChessPiece \<Rightarrow> int \<Rightarrow> int \<Rightarrow> int \<Rightarrow> int \<Rightarrow> Game result" where
  \<comment> \<open>lines 276--293\<close>
  "placePiece g p fx fy tx ty =
     (if \<not> onBoard tx ty then Panic IndexOutOfRange
      else
        let promotes = (Type p = Pawn \<and> (ty = 0 \<or> ty = 7));
            p1 = p\<lparr>HasMoved := True\<rparr>;
            p2 = (if promotes \<and> Color p \<noteq> White
                  then p1\<lparr>Type := Queen, SpriteID := 4\<rparr> else p1);
            g1 = setCell (setCell g tx ty (Some p2)) fx fy None;
            g2 = (if promotes \<and> Color p = White
                  then g1\<lparr>promoting := True, promX := tx, promY := ty\<rparr> else g1);
            g3 = (if \<not> promoting g2 then g2\<lparr>activeColor := opp (activeColor g2)\<rparr> else g2)
        in Ret (g3\<lparr>moveCount := moveCount g3 + 1, frankThinkTime := 0\<rparr>))"

definition executeMove :: "Game \<Rightarrow> int \<Rightarrow> int \<Rightarrow> int \<Rightarrow> int \<Rightarrow> Game result" where
  "executeMove g fx fy tx ty =
     (case cellAt g fx fy of
        None \<Rightarrow> None
      | Some (Inl e) \<Rightarrow> Panic e
      | Some (Inr None) \<Rightarrow> Panic NilDereference
      | Some (Inr (Some p)) \<Rightarrow>
          bindR (castleRook g p fx fy tx) (\<lambda>g1.
          bindR (capturePassant g1 p fy tx ty) (\<lambda>g2.
          placePiece (setPassant g2 p fx fy ty) p fx fy tx ty)))"

section \<open>A new game (main.go, lines 81--115)\<close>

text \<open>\<^verbatim>\<open>int(t)\<close> on the constants of \<^verbatim>\<open>PieceType\<close>.\<close>

definition typeIndex :: "PieceType \<Rightarrow> int" where
  "typeIndex t = (case t of Pawn \<Rightarrow> 0 | Bishop \<Rightarrow> 1 | Rook \<Rightarrow> 2 | Knight \<Rightarrow> 3
                  | Queen \<Rightarrow> 4 | King \<Rightarrow> 5)"

definition createPiece :: "Game \<Rightarrow> PieceType \<Rightarrow> Color \<Rightarrow> int \<Rightarrow> int \<Rightarrow> Game" where
  "createPiece g t c x y =
     (let sid = typeIndex t;
          sid' = (if c = White then sid + 6 else sid)
      in setCell g x y (Some \<lparr>Type = t, Color = c, SpriteID = sid', HasMoved = False\<rparr>))"

definition layout :: "PieceType list" where
  "layout = [Rook, Knight, Bishop, Queen, King, Bishop, Knight, Rook]"

definition setupBoard :: "Game \<Rightarrow> Game" where
  "setupBoard g =
     fold (\<lambda>i g.
            createPiece
              (createPiece
                 (createPiece (createPiece g (layout ! nat i) Black i 0) Pawn Black i 1)
                 Pawn White i 6)
              (layout ! nat i) White i 7)
          [0..7] g"

text \<open>
  \<^verbatim>\<open>NewGame(wager, minutes)\<close>; the third argument is the package-level \<^verbatim>\<open>wallet\<close>, which a
  new game leaves as it is. All fields not named in the struct literal are zero.
\<close>

definition NewGame :: "int \<Rightarrow> int \<Rightarrow> int \<Rightarrow> Game" where
  "NewGame w minutes wal =
     setupBoard
       \<lparr>board = (\<lambda>y x. None), selectedX = - 1, selectedY = - 1, activeColor = White,
        hustlerName = ''4-Move-Frank'', currentDialog = ''Eyes on the board, kid.'',
        whiteTime = minutes * 60 * 60, blackTime = minutes * 60 * 60,
        gameOver = False, gameStarted = True, wager = w, initialMins = minutes,
        epX = - 1, epY = - 1, winner = - 1, moveCount = 0, frankThinkTime = 0,
        promoting = False, promX = 0, promY = 0, wallet = wal\<rparr>"

section \<open>One frame (main.go, lines 295--458)\<close>

text \<open>What \<^verbatim>\<open>Update\<close> reads from the keyboard and the mouse in one frame.\<close>

record Input =
  key1 :: bool
  key2 :: bool
  keyQ :: bool
  keyR :: bool
  keyB :: bool
  keyN :: bool
  mouseLeft :: bool
  cursorX :: int
  cursorY :: int

text \<open>
  \<^verbatim>\<open>g.board[g.promY][g.promX].Type, g.board[g.promY][g.promX].SpriteID = t, sid\<close> and
  \<^verbatim>\<open>g.promoting = false\<close> (lines 312--327).
\<close>

definition promoteTo :: "Game \<Rightarrow> PieceType \<Rightarrow> int \<Rightarrow> Game result" where
  "promoteTo g t sid =
     (case cellAt g (promX g) (promY g) of
        None \<Rightarrow> None
      | Some (Inl e) \<Rightarrow> Panic e
      | Some (Inr None) \<Rightarrow> Panic NilDereference
      | Some (Inr (Some q)) \<Rightarrow>
          Ret ((setCell g (promX g) (promY g) (Some (q\<lparr>Type := t, SpriteID := sid\<rparr>)))
                 \<lparr>promoting := False\<rparr>))"

definition promotionKeys :: "Input \<Rightarrow> Game \<Rightarrow> Game result" where
  "promotionKeys inp g =
     bindR (if keyQ inp then promoteTo g Queen 10 else Ret g) (\<lambda>g1.
     bindR (if keyR inp then promoteTo g1 Rook 8 else Ret g1) (\<lambda>g2.
     bindR (if keyB inp then promoteTo g2 Bishop 7 else Ret g2) (\<lambda>g3.
     bindR (if keyN inp then promoteTo g3 Knight 9 else Ret g3) (\<lambda>g4.
     Ret (if \<not> promoting g4 then g4\<lparr>activeColor := Black\<rparr> else g4)))))"

text \<open>
  Lines 333--345, reached when the game is started, not over and no promotion is
  pending. The second component says whether \<^verbatim>\<open>Update\<close> returns here.
\<close>

definition terminalCheck :: "nat \<Rightarrow> Game \<Rightarrow> (bool \<times> Game) result" where
  "terminalCheck n g =
     bindR (hasLegalMoves n g (activeColor g)) (\<lambda>(has, g1).
       if \<not> has then
         let g2 = g1\<lparr>gameOver := True\<rparr> in
         bindR (isInCheck n g2 (activeColor g2)) (\<lambda>chk.
           if chk then
             (if activeColor g2 = White
              then Ret (True, g2\<lparr>winner := 0, currentDialog := ''MATE! Give me my money.'',
                                 wallet := wallet g2 - wager g2\<rparr>)
              else Ret (True, g2\<lparr>winner := 1, currentDialog := ''MATE! Take the cash.'',
                                 wallet := wallet g2 + wager g2\<rparr>))
           else Ret (True, g2))
       else Ret (False, g1))"

text \<open>
  Lines 355--374: a click on the grid cell \<open>(gx, gy)\<close>. The second click reads
  \<^verbatim>\<open>g.board[g.selectedY][g.selectedX]\<close> with a bounds check and hands the pointer to
  \<^verbatim>\<open>isMoveLegal\<close>, which dereferences it once the destination is known to be on the
  board.
\<close>

definition whiteClick :: "nat \<Rightarrow> Game \<Rightarrow> int \<Rightarrow> int \<Rightarrow> Game result" where
  "whiteClick n g gx gy =
     (if gx \<ge> 0 \<and> gx < 8 \<and> gy \<ge> 0 \<and> gy < 8 then
        (if selectedX g = - 1 then
           (case board g gy gx of
              None \<Rightarrow> Ret g
            | Some q \<Rightarrow>
                if Color q = White then Ret (g\<lparr>selectedX := gx, selectedY := gy\<rparr>) else Ret g)
         else
           (case cellAt g (selectedX g) (selectedY g) of
              None \<Rightarrow> None
            | Some (Inl e) \<Rightarrow> Panic e
            | Some (Inr None) \<Rightarrow> Panic NilDereference
            | Some (Inr (Some p)) \<Rightarrow>
                bindR (isMoveLegal n g p (selectedX g) (selectedY g) gx gy) (\<lambda>legal.
                bindR (if legal then
                         let orig = board g gy gx;
                             g1 = simulateMove g p (selectedX g) (selectedY g) gx gy
                         in bindR (isInCheck n g1 White) (\<lambda>chk.
                              let g2 = undoMove g1 p orig (selectedX g) (selectedY g) gx gy
                              in if \<not> chk
                                 then executeMove g2 (selectedX g) (selectedY g) gx gy
                                 else Ret g2)
                       else Ret g) (\<lambda>g3.
                Ret (g3\<lparr>selectedX := - 1, selectedY := - 1\<rparr>)))))
      else Ret g)"

text \<open>Lines 348--375; \<^verbatim>\<open>tileSize\<close> is 16.\<close>

definition whiteTurn :: "nat \<Rightarrow> Input \<Rightarrow> Game \<Rightarrow> Game result" where
  "whiteTurn n inp g =
     (let g1 = g\<lparr>whiteTime := whiteTime g - 1\<rparr>;
          g2 = (if whiteTime g1 \<le> 0
                then g1\<lparr>gameOver := True, winner := 0, wallet := wallet g1 - wager g1\<rparr>
                else g1)
      in if mouseLeft inp then
           let gx = quot_i (cursorX inp) 16 - 1;
               gy = quot_i (cursorY inp) 16 - 1
           in whiteClick n g2 gx gy
         else Ret g2)"

text \<open>\<^verbatim>\<open>pieceValues\<close> (lines 47--49).\<close>

definition pieceValues :: "PieceType \<Rightarrow> int" where
  "pieceValues t = (case t of Pawn \<Rightarrow> 1 | Knight \<Rightarrow> 3 | Bishop \<Rightarrow> 3 | Rook \<Rightarrow> 5
                    | Queen \<Rightarrow> 9 | King \<Rightarrow> 100)"

text \<open>The scripted opening (lines 390--402); each entry is \<open>(m[0], m[1], m[2], m[3])\<close>.\<close>

definition script :: "(int \<times> int \<times> int \<times> int) list" where
  "script = [(4, 1, 4, 3), (3, 0, 7, 4), (5, 0, 2, 3), (7, 4, 5, 6)]"

text \<open>The first component says whether a scripted move has been played.\<close>

fun scriptLoop :: "nat \<Rightarrow> Game \<Rightarrow> (int \<times> int \<times> int \<times> int) list \<Rightarrow> (bool \<times> Game) result" where
  "scriptLoop n g [] = Ret (False, g)"
| "scriptLoop n g ((m0, m1, m2, m3) # rest) =
     (case board g m1 m0 of
        None \<Rightarrow> scriptLoop n g rest
      | Some p \<Rightarrow>
          if Color p = Black then
            (case isMoveLegal n g p m0 m1 m2 m3 of
               None \<Rightarrow> None
             | Some (Inl e) \<Rightarrow> Panic e
             | Some (Inr legal) \<Rightarrow>
                 if legal then
                   let orig = board g m3 m2;
                       g1 = simulateMove g p m0 m1 m2 m3
                   in (case isInCheck n g1 Black of
                         None \<Rightarrow> None
                       | Some (Inl e) \<Rightarrow> Panic e
                       | Some (Inr chk) \<Rightarrow>
                           let g2 = undoMove g1 p orig m0 m1 m2 m3 in
                           if \<not> chk then
                             (case executeMove g2 m0 m1 m2 m3 of
                                None \<Rightarrow> None
                              | Some (Inl e) \<Rightarrow> Panic e
                              | Some (Inr g3) \<Rightarrow> Ret (True, g3))
                           else scriptLoop n g2 rest)
                 else scriptLoop n g rest)
          else scriptLoop n g rest)"

text \<open>The local type \<^verbatim>\<open>move\<close> (lines 404--407).\<close>

datatype move = Move (mv_fx: int) (mv_fy: int) (mv_tx: int) (mv_ty: int) (mv_score: int)

text \<open>
  Lines 412--441: the destinations of one black piece, with \<^verbatim>\<open>smartMoves\<close> as
  accumulator; then lines 409--444, the loops over the pieces.
\<close>

fun smartToLoop ::
  "nat \<Rightarrow> Game \<Rightarrow> ChessPiece \<Rightarrow> int \<Rightarrow> int \<Rightarrow> (int \<times> int) list \<Rightarrow> move list
   \<Rightarrow> (move list \<times> Game) result" where
  "smartToLoop n g p fx fy [] smartMoves = Ret (smartMoves, g)"
| "smartToLoop n g p fx fy ((tx, ty) # rest) smartMoves =
     (case isMoveLegal n g p fx fy tx ty of
        None \<Rightarrow> None
      | Some (Inl e) \<Rightarrow> Panic e
      | Some (Inr legal) \<Rightarrow>
          if legal then
            let orig = board g ty tx in
            (case isSquareAttacked n g fx fy White of
               None \<Rightarrow> None
             | Some (Inl e) \<Rightarrow> Panic e
             | Some (Inr inDanger) \<Rightarrow>
                 let s1 = (if inDanger then 0 + pieceValues (Type p) * 2 else 0);
                     s2 = (case orig of
                             Some q \<Rightarrow> s1 + (pieceValues (Type q) + 2)
                           | None \<Rightarrow> s1);
                     g1 = simulateMove g p fx fy tx ty
                 in (case isInCheck n g1 Black of
                       None \<Rightarrow> None
                     | Some (Inl e) \<Rightarrow> Panic e
                     | Some (Inr chk) \<Rightarrow>
                         if \<not> chk then
                           (case isSquareAttacked n g1 tx ty White of
                              None \<Rightarrow> None
                            | Some (Inl e) \<Rightarrow> Panic e
                            | Some (Inr attacked) \<Rightarrow>
                                let s3 = (if attacked then s2 - (pieceValues (Type p) + 1)
                                          else s2)
                                in smartToLoop n (undoMove g1 p orig fx fy tx ty) p fx fy rest
                                     (smartMoves @ [Move fx fy tx ty s3]))
                         else smartToLoop n (undoMove g1 p orig fx fy tx ty) p fx fy rest
                                smartMoves))
          else smartToLoop n g p fx fy rest smartMoves)"

fun smartFromLoop ::
  "nat \<Rightarrow> Game \<Rightarrow> (int \<times> int) list \<Rightarrow> move list \<Rightarrow> (move list \<times> Game) result" where
  "smartFromLoop n g [] smartMoves = Ret (smartMoves, g)"
| "smartFromLoop n g ((fx, fy) # rest) smartMoves =
     (case board g fy fx of
        None \<Rightarrow> smartFromLoop n g rest smartMoves
      | Some p \<Rightarrow>
          if Color p = Black then
            (case smartToLoop n g p fx fy squares smartMoves of
               None \<Rightarrow> None
             | Some (Inl e) \<Rightarrow> Panic e
             | Some (Inr (smartMoves', g')) \<Rightarrow> smartFromLoop n g' rest smartMoves')
          else smartFromLoop n g rest smartMoves)"

text \<open>Lines 446--454: the first move of the highest score.\<close>

definition pickBest :: "move \<Rightarrow> move list \<Rightarrow> move" where
  "pickBest m0 smartMoves =
     fold (\<lambda>m best. if mv_score m > mv_score best then m else best) smartMoves m0"

definition frankHeuristic :: "nat \<Rightarrow> Game \<Rightarrow> Game result" where
  "frankHeuristic n g =
     bindR (smartFromLoop n g squares []) (\<lambda>(smartMoves, g1).
       (case smartMoves of
          [] \<Rightarrow> Ret g1
        | m0 # ms \<Rightarrow>
            let best = pickBest m0 smartMoves
            in executeMove g1 (mv_fx best) (mv_fy best) (mv_tx best) (mv_ty best)))"

text \<open>Lines 382--387.\<close>

definition thinkLimit :: "Game \<Rightarrow> int" where
  "thinkLimit g = (if moveCount g < 6 then 60 else if moveCount g < 16 then 120 else 180)"

text \<open>Lines 377--455.\<close>

definition blackTurn :: "nat \<Rightarrow> Game \<Rightarrow> Game result" where
  "blackTurn n g =
     (let g1 = g\<lparr>blackTime := blackTime g - 1\<rparr>;
          g2 = (if blackTime g1 \<le> 0
                then g1\<lparr>gameOver := True, winner := 1, wallet := wallet g1 + wager g1\<rparr>
                else g1);
          g3 = g2\<lparr>frankThinkTime := frankThinkTime g2 + 1\<rparr>
      in if frankThinkTime g3 \<ge> thinkLimit g3 then
           bindR (scriptLoop n g3 script) (\<lambda>(played, g4).
             if played then Ret g4 else frankHeuristic n g4)
         else Ret g3)"

definition Update :: "nat \<Rightarrow> Input \<Rightarrow> Game \<Rightarrow> Game result" where
  "Update n inp g =
     (if \<not> gameStarted g then
        (let g1 = (if key1 inp then NewGame 5 1 (wallet g) else g);
             g2 = (if key2 inp then NewGame 50 5 (wallet g1) else g1)
         in Ret g2)
      else if gameOver g then
        Ret (if mouseLeft inp then NewGame (wager g) (initialMins g) (wallet g) else g)
      else if promoting g then promotionKeys inp g
      else
        bindR (terminalCheck n g) (\<lambda>(done, g1).
          if done then Ret g1
          else if activeColor g1 = White then whiteTurn n inp g1
          else blackTurn n g1))"


section \<open>Specification-side definitions and example positions\<close>

text \<open>
  A call returns \<open>b\<close> when some budget is enough for it to return \<open>b\<close>
  (\<open>isInCheck_fuel_mono\<close> and its companions show that a larger budget then gives
  the same answer).
\<close>

definition isMoveLegal_returns ::
  "Game \<Rightarrow> ChessPiece \<Rightarrow> int \<Rightarrow> int \<Rightarrow> int \<Rightarrow> int \<Rightarrow> bool \<Rightarrow> bool" where
  "isMoveLegal_returns g p fx fy tx ty b = (\<exists>n. isMoveLegal n g p fx fy tx ty = Ret b)"

definition isInCheck_returns :: "Game \<Rightarrow> Color \<Rightarrow> bool \<Rightarrow> bool" where
  "isInCheck_returns g c b = (\<exists>n. isInCheck n g c = Ret b)"

definition isSquareAttacked_returns :: "Game \<Rightarrow> int \<Rightarrow> int \<Rightarrow> Color \<Rightarrow> bool \<Rightarrow> bool" where
  "isSquareAttacked_returns g x y c b = (\<exists>n. isSquareAttacked n g x y c = Ret b)"

text \<open>
  The pawn rule in the words of the specification: one square forward onto an empty
  square; two squares forward from the starting rank over an empty square onto an empty
  square; one square diagonally forward onto an enemy piece or onto the en-passant
  target; always onto the board and never onto a piece of the pawn's own colour.
\<close>

definition pawnMoveSpec :: "Game \<Rightarrow> ChessPiece \<Rightarrow> int \<Rightarrow> int \<Rightarrow> int \<Rightarrow> int \<Rightarrow> bool" where
  "pawnMoveSpec g p fx fy tx ty =
     (let fwd = (if Color p = White then - 1 else 1) in
      onBoard tx ty
      \<and> (case board g ty tx of None \<Rightarrow> True | Some t \<Rightarrow> Color t \<noteq> Color p)
      \<and> ((tx = fx \<and> ty = fy + fwd \<and> board g ty tx = None)
         \<or> (tx = fx \<and> ty = fy + 2 * fwd \<and> fy = (if Color p = White then 6 else 1)
            \<and> board g (fy + fwd) fx = None \<and> board g ty tx = None)
         \<or> (\<bar>tx - fx\<bar> = 1 \<and> ty = fy + fwd
            \<and> ((\<exists>t. board g ty tx = Some t \<and> Color t \<noteq> Color p)
               \<or> (tx = epX g \<and> ty = epY g)))))"

text \<open>A piece as \<^verbatim>\<open>createPiece\<close> makes it, with a given \<^verbatim>\<open>HasMoved\<close> flag.\<close>

definition mkPiece :: "PieceType \<Rightarrow> Color \<Rightarrow> bool \<Rightarrow> ChessPiece" where
  "mkPiece t c m =
     \<lparr>Type = t, Color = c, SpriteID = typeIndex t + (if c = White then 6 else 0),
      HasMoved = m\<rparr>"

text \<open>A started game on an empty board, White to move, on which positions are set up.\<close>

definition clearGame :: Game where
  "clearGame = (NewGame 5 1 100)\<lparr>board := (\<lambda>y x. None)\<rparr>"

text \<open>
  White pawn on e5, black pawn on d5 after its double step from d7; the en-passant
  target is d6.
\<close>

definition passantGame :: Game where
  "passantGame =
     (setCell (setCell clearGame 4 3 (Some (mkPiece Pawn White True)))
        3 3 (Some (mkPiece Pawn Black True)))\<lparr>epX := 3, epY := 2\<rparr>"

text \<open>Every cell of rank \<open>y\<close> strictly between the files \<open>a\<close> and \<open>b\<close> is empty.\<close>

definition clearBetween :: "Game \<Rightarrow> int \<Rightarrow> int \<Rightarrow> int \<Rightarrow> bool" where
  "clearBetween g y a b = list_all (\<lambda>x. board g y x = None) [min a b + 1 .. max a b - 1]"

text \<open>
  The destination holds a piece of the colour of \<open>p\<close> (the test of lines 152--155).
\<close>

definition ownPieceAt :: "Game \<Rightarrow> ChessPiece \<Rightarrow> int \<Rightarrow> int \<Rightarrow> bool" where
  "ownPieceAt g p x y = (case board g y x of Some t \<Rightarrow> Color t = Color p | None \<Rightarrow> False)"

text \<open>
  \<open>castleProbe\<close> says that \<open>isMoveLegal\<close> reaches its call of \<open>isInCheck\<close> (line 171);
  \<open>castleRest\<close> is what it does after that call has returned false (lines 174--179).
\<close>

definition castleProbe :: "Game \<Rightarrow> ChessPiece \<Rightarrow> int \<Rightarrow> int \<Rightarrow> int \<Rightarrow> int \<Rightarrow> bool" where
  "castleProbe g p fx fy tx ty =
     (Type p = King \<and> \<not> HasMoved p \<and> fy = ty \<and> \<bar>tx - fx\<bar> = 2
      \<and> onBoard tx ty \<and> \<not> ownPieceAt g p tx ty)"

definition castleRest :: "Game \<Rightarrow> int \<Rightarrow> int \<Rightarrow> int \<Rightarrow> bool result" where
  "castleRest g fx fy tx =
     (let rx = (if tx > fx then 7 else 0) in
      case board g fy rx of
        None \<Rightarrow> Ret False
      | Some rook \<Rightarrow>
          if Type rook = Rook \<and> \<not> HasMoved rook then isPathClear g fx fy rx fy
          else Ret False)"

text \<open>
  The king rule in the words of the specification: one step in any direction, or
  castling: along the rank, two files, the king has not moved, \<open>isInCheck\<close> returns
  false for its colour, the corner of that rank on the side of travel holds a rook that
  has not moved, and the cells between king and rook are empty.
\<close>

definition kingMoveSpec :: "Game \<Rightarrow> ChessPiece \<Rightarrow> int \<Rightarrow> int \<Rightarrow> int \<Rightarrow> int \<Rightarrow> bool" where
  "kingMoveSpec g p fx fy tx ty =
     ((\<bar>tx - fx\<bar> \<le> 1 \<and> \<bar>ty - fy\<bar> \<le> 1)
      \<or> (ty = fy \<and> \<bar>tx - fx\<bar> = 2 \<and> \<not> HasMoved p
         \<and> isInCheck_returns g (Color p) False
         \<and> (let corner = (if tx > fx then 7 else 0) in
              (\<exists>r. board g fy corner = Some r \<and> Type r = Rook \<and> \<not> HasMoved r)
              \<and> clearBetween g fy fx corner)))"

text \<open>
  White king on e1 and white rook on h1, neither has moved; a black king on e8 and a
  black rook on f8, which attacks f1.
\<close>

definition castleGame :: Game where
  "castleGame =
     setCell (setCell (setCell (setCell clearGame
        4 7 (Some (mkPiece King White False)))
        7 7 (Some (mkPiece Rook White False)))
        4 0 (Some (mkPiece King Black True)))
        5 0 (Some (mkPiece Rook Black True))"



text \<open>
  \<open>kingsApart d g\<close>: every white king that has not moved stands on a rank whose index is
  at least \<open>d\<close> more than that of every black king that has not moved. After
  \<open>setupBoard\<close> the two kings are on ranks 7 and 0, and a king leaves its square only
  through \<open>executeMove\<close>, which sets \<open>HasMoved\<close>; so \<open>kingsApart 7\<close> holds in
  every position reached in play (\<open>kingsHome_NewGame\<close>, \<open>kingsHome_Update\<close> and
  \<open>kingsHome_apart\<close> below).
\<close>

definition kingAt :: "Game \<Rightarrow> Color \<Rightarrow> int \<Rightarrow> int \<Rightarrow> bool" where
  "kingAt g c x y =
     (case board g y x of Some p \<Rightarrow> Type p = King \<and> Color p = c | None \<Rightarrow> False)"

definition unmovedKingRanks :: "Game \<Rightarrow> Color \<Rightarrow> int list" where
  "unmovedKingRanks g c =
     map snd (filter (\<lambda>(x, y). case board g y x of
                                    Some p \<Rightarrow> Type p = King \<and> Color p = c \<and> \<not> HasMoved p
                                  | None \<Rightarrow> False) squares)"

definition kingsApart :: "int \<Rightarrow> Game \<Rightarrow> bool" where
  "kingsApart d g =
     (\<forall>rw \<in> set (unmovedKingRanks g White). \<forall>rb \<in> set (unmovedKingRanks g Black).
        rb + d \<le> rw)"

text \<open>
  \<open>kingsHome g\<close>: the white kings that have not moved stand on rank index 7 and the black
  ones on rank index 0. \<open>noNewUnmovedKing g g'\<close>: every king of \<open>g'\<close> that has not moved
  stands on the same cell in \<open>g\<close>.
\<close>

definition kingsHome :: "Game \<Rightarrow> bool" where
  "kingsHome g =
     (set (unmovedKingRanks g White) \<subseteq> {7} \<and> set (unmovedKingRanks g Black) \<subseteq> {0})"

definition noNewUnmovedKing :: "Game \<Rightarrow> Game \<Rightarrow> bool" where
  "noNewUnmovedKing g g' =
     (\<forall>x y q. board g' y x = Some q \<and> Type q = King \<and> \<not> HasMoved q
        \<longrightarrow> board g y x = Some q)"

text \<open>The body of the loop of \<open>findKing\<close>.\<close>

definition kingStep :: "Game \<Rightarrow> Color \<Rightarrow> int \<times> int \<Rightarrow> int \<times> int \<Rightarrow> int \<times> int" where
  "kingStep g c s k = (if kingAt g c (fst s) (snd s) then s else k)"

text \<open>
  With budget \<open>n\<close>, the move of \<open>p\<close> is pseudo-legal and, once simulated, does not leave
  the king of colour \<open>c\<close> in check; \<open>pieceOK\<close>: the cell holds a piece of colour \<open>c\<close>
  with such a move.
\<close>

definition moveOK :: "nat \<Rightarrow> Game \<Rightarrow> Color \<Rightarrow> ChessPiece \<Rightarrow> int \<Rightarrow> int \<Rightarrow> int \<Rightarrow> int \<Rightarrow> bool" where
  "moveOK n g c p fx fy tx ty =
     (isMoveLegal n g p fx fy tx ty = Ret True
      \<and> isInCheck n (simulateMove g p fx fy tx ty) c = Ret False)"

definition pieceOK :: "nat \<Rightarrow> Game \<Rightarrow> Color \<Rightarrow> int \<Rightarrow> int \<Rightarrow> bool" where
  "pieceOK n g c fx fy =
     (\<exists>p. board g fy fx = Some p \<and> Color p = c
          \<and> (\<exists>(tx, ty) \<in> set squares. moveOK n g c p fx fy tx ty))"

text \<open>
  A fully legal move in the words of the specification: the origin holds a piece of
  colour \<open>c\<close>, \<open>isMoveLegal\<close> returns true for the move and, after the trial move,
  \<open>isInCheck\<close> returns false for \<open>c\<close>.
\<close>

definition fullyLegalMove :: "Game \<Rightarrow> Color \<Rightarrow> int \<Rightarrow> int \<Rightarrow> int \<Rightarrow> int \<Rightarrow> bool" where
  "fullyLegalMove g c fx fy tx ty =
     (\<exists>p. board g fy fx = Some p \<and> Color p = c
          \<and> isMoveLegal_returns g p fx fy tx ty True
          \<and> isInCheck_returns (simulateMove g p fx fy tx ty) c False)"

definition hasFullyLegalMove :: "Game \<Rightarrow> Color \<Rightarrow> bool" where
  "hasFullyLegalMove g c =
     (\<exists>(fx, fy) \<in> set squares. \<exists>(tx, ty) \<in> set squares. fullyLegalMove g c fx fy tx ty)"

text \<open>\<open>hasLegalMoves\<close> returns \<open>b\<close>.\<close>

definition hasLegalMoves_returns :: "Game \<Rightarrow> Color \<Rightarrow> bool \<Rightarrow> bool" where
  "hasLegalMoves_returns g c b = (\<exists>n g'. hasLegalMoves n g c = Ret (b, g'))"

text \<open>
  A white king on c8 and a black king on e8, two files apart on one rank, both with
  \<open>HasMoved\<close> false.
\<close>

definition sideKingsGame :: Game where
  "sideKingsGame =
     setCell (setCell clearGame
        2 0 (Some (mkPiece King White False)))
        4 0 (Some (mkPiece King Black False))"

text \<open>
  Two games with the same board and en-passant target; the legality functions read
  nothing else.
\<close>

definition sameBoard :: "Game \<Rightarrow> Game \<Rightarrow> bool" where
  "sameBoard g g' = (board g' = board g \<and> epX g' = epX g \<and> epY g' = epY g)"

text \<open>A colour as the integer the \<^verbatim>\<open>winner\<close> field holds (\<^verbatim>\<open>Black\<close> is 0, \<^verbatim>\<open>White\<close> is 1).\<close>

definition colorIndex :: "Color \<Rightarrow> int" where
  "colorIndex c = (case c of Black \<Rightarrow> 0 | White \<Rightarrow> 1)"

text \<open>
  White king on h1, white pawn on a8, black queen on f2, black king on f3: White is not
  in check and has no legal move. \<open>promotionGame\<close> is that position while White is
  asked for the promotion piece of the pawn on a8.
\<close>

definition stalemateBoard :: Board where
  "stalemateBoard =
     (\<lambda>y x. if x = 7 \<and> y = 7 then Some (mkPiece King White True)
            else if x = 0 \<and> y = 0 then Some (mkPiece Pawn White True)
            else if x = 5 \<and> y = 6 then Some (mkPiece Queen Black True)
            else if x = 5 \<and> y = 5 then Some (mkPiece King Black True)
            else None)"

definition stalemateGame :: Game where
  "stalemateGame = clearGame\<lparr>board := stalemateBoard\<rparr>"

definition promotionGame :: Game where
  "promotionGame = stalemateGame\<lparr>promoting := True, promX := 0, promY := 0\<rparr>"

text \<open>A frame without key or mouse input.\<close>

definition noInput :: Input where
  "noInput = \<lparr>key1 = False, key2 = False, keyQ = False, keyR = False, keyB = False,
              keyN = False, mouseLeft = False, cursorX = 0, cursorY = 0\<rparr>"














text \<open>
  The game when Black's thinking is over: lines 377--381 of \<^verbatim>\<open>Update\<close> have taken a tick
  off Black's clock and counted the frame.
\<close>

definition thinkTick :: "Game \<Rightarrow> Game" where
  "thinkTick g =
     (let g1 = g\<lparr>blackTime := blackTime g - 1\<rparr>;
          g2 = (if blackTime g1 \<le> 0
                then g1\<lparr>gameOver := True, winner := 1, wallet := wallet g1 + wager g1\<rparr>
                else g1)
      in g2\<lparr>frankThinkTime := frankThinkTime g2 + 1\<rparr>)"











section \<open>Basic facts\<close>

lemma abs_i_eq [simp]: "abs_i v = \<bar>v\<bar>"
  by (simp add: abs_i_def)

lemma board_setCell [simp]:
  "board (setCell g x y v) y' x' = (if x' = x \<and> y' = y then v else board g y' x')"
  by (simp add: setCell_def)

lemma setCell_fields [simp]:
  "epX (setCell g x y v) = epX g" "epY (setCell g x y v) = epY g"
  "activeColor (setCell g x y v) = activeColor g" "moveCount (setCell g x y v) = moveCount g"
  "promoting (setCell g x y v) = promoting g" "selectedX (setCell g x y v) = selectedX g"
  "selectedY (setCell g x y v) = selectedY g" "gameOver (setCell g x y v) = gameOver g"
  "winner (setCell g x y v) = winner g" "gameStarted (setCell g x y v) = gameStarted g"
  by (simp_all add: setCell_def)

lemma bindR_Ret [simp]: "bindR (Ret v) f = f v"
  by (simp add: bindR_def)

lemma bindR_Panic [simp]: "bindR (Panic e) f = Panic e"
  by (simp add: bindR_def)

lemma bindR_None [simp]: "bindR None f = None"
  by (simp add: bindR_def)

lemma bindR_eq_Ret: "bindR m f = Ret w \<longleftrightarrow> (\<exists>v. m = Ret v \<and> f v = Ret w)"
  by (auto simp: bindR_def split: option.splits sum.splits)

lemma upto8: "[0..7] = [0, 1, 2, 3, 4, 5, 6, 7 :: int]"
  by code_simp

lemma squares_eq:
  "squares =
    [(0,0),(1,0),(2,0),(3,0),(4,0),(5,0),(6,0),(7,0),
     (0,1),(1,1),(2,1),(3,1),(4,1),(5,1),(6,1),(7,1),
     (0,2),(1,2),(2,2),(3,2),(4,2),(5,2),(6,2),(7,2),
     (0,3),(1,3),(2,3),(3,3),(4,3),(5,3),(6,3),(7,3),
     (0,4),(1,4),(2,4),(3,4),(4,4),(5,4),(6,4),(7,4),
     (0,5),(1,5),(2,5),(3,5),(4,5),(5,5),(6,5),(7,5),
     (0,6),(1,6),(2,6),(3,6),(4,6),(5,6),(6,6),(7,6),
     (0,7),(1,7),(2,7),(3,7),(4,7),(5,7),(6,7),(7,7)]"
  by (simp add: squares_def upto8)

lemma board_clearGame [simp]: "board clearGame y x = None"
  by (simp add: clearGame_def)

subsection \<open>The path loop\<close>

lemma pathLoop_done: "pathLoop g sx sy tx ty tx ty = Ret True"
  by (subst pathLoop.simps) simp

lemma pathLoop_step:
  "cx \<noteq> tx \<or> cy \<noteq> ty \<Longrightarrow> onBoard cx cy \<Longrightarrow>
   pathLoop g sx sy tx ty cx cy =
     (case board g cy cx of
        Some q \<Rightarrow> Ret False
      | None \<Rightarrow> pathLoop g sx sy tx ty (cx + sx) (cy + sy))"
  by (subst pathLoop.simps) (simp add: cellAt_def split: option.splits)

lemma pathLoop_off:
  "cx \<noteq> tx \<or> cy \<noteq> ty \<Longrightarrow> \<not> onBoard cx cy \<Longrightarrow>
   pathLoop g sx sy tx ty cx cy = Panic IndexOutOfRange"
  by (subst pathLoop.simps) (simp add: cellAt_def)

lemma isPathClear_black_two:
  "0 \<le> fx \<Longrightarrow> fx \<le> 7 \<Longrightarrow> isPathClear g fx 1 fx 3 = Ret (board g 2 fx = None)"
  by (simp add: isPathClear_def quot_i_def pathLoop_step pathLoop_done onBoard_def
      split: option.splits)

lemma isPathClear_white_two:
  "0 \<le> fx \<Longrightarrow> fx \<le> 7 \<Longrightarrow> isPathClear g fx 6 fx 4 = Ret (board g 5 fx = None)"
  by (simp add: isPathClear_def quot_i_def pathLoop_step pathLoop_done onBoard_def
      split: option.splits)

subsection \<open>The steps of \<open>executeMove\<close>\<close>

lemma executeMove_Ret:
  assumes "cellAt g fx fy = Ret (Some p)"
  shows "executeMove g fx fy tx ty = Ret g' \<longleftrightarrow>
     (\<exists>g1 g2. castleRook g p fx fy tx = Ret g1 \<and> capturePassant g1 p fy tx ty = Ret g2
        \<and> placePiece (setPassant g2 p fx fy ty) p fx fy tx ty = Ret g')"
  using assms by (simp add: executeMove_def bindR_eq_Ret)

lemma setPassant_ep:
  "epX (setPassant g p fx fy ty) = (if Type p = Pawn \<and> \<bar>ty - fy\<bar> = 2 then fx else - 1)"
  "epY (setPassant g p fx fy ty) =
     (if Type p = Pawn \<and> \<bar>ty - fy\<bar> = 2 then (fy + ty) div 2 else - 1)"
  by (auto simp: setPassant_def Let_def quot_i_def abs_if split: if_splits)

lemma board_setPassant [simp]: "board (setPassant g p fx fy ty) = board g"
  by (simp add: setPassant_def Let_def)

lemma placePiece_ep:
  "placePiece g p fx fy tx ty = Ret g1 \<Longrightarrow> epX g1 = epX g \<and> epY g1 = epY g"
  by (auto simp: placePiece_def Let_def split: if_splits)

lemma quot_sgn: "d \<noteq> 0 \<Longrightarrow> quot_i d \<bar>d\<bar> = sgn d"
  by (simp add: quot_i_def sgn_if)

lemma quot_pos: "0 < d \<Longrightarrow> quot_i d d = 1"
  by (simp add: quot_i_def)

lemma quot_neg: "a < b \<Longrightarrow> quot_i (a - b) (b - a) = - 1"
  by (simp add: quot_i_def)

lemma pathLoop_right:
  "0 \<le> cx \<Longrightarrow> cx + int k \<le> 8 \<Longrightarrow> 0 \<le> y \<Longrightarrow> y \<le> 7 \<Longrightarrow>
   pathLoop g 1 0 (cx + int k) y cx y
     = Ret (list_all (\<lambda>x. board g y x = None) [cx .. cx + int k - 1])"
proof (induction k arbitrary: cx)
  case 0
  then show ?case by (simp add: pathLoop_done)
next
  case (Suc k)
  have ob: "onBoard cx y" using Suc.prems by (simp add: onBoard_def)
  have ne: "cx \<noteq> cx + int (Suc k) \<or> y \<noteq> y" by simp
  have ih: "pathLoop g 1 0 (cx + 1 + int k) y (cx + 1) y
     = Ret (list_all (\<lambda>x. board g y x = None) [cx + 1 .. cx + 1 + int k - 1])"
    using Suc.prems by (intro Suc.IH) auto
  have l: "[cx .. cx + int (Suc k) - 1] = cx # [cx + 1 .. cx + 1 + int k - 1]"
    by (subst upto.simps) (simp add: algebra_simps)
  have t: "cx + int (Suc k) = cx + 1 + int k" by simp
  show ?case
    unfolding pathLoop_step [OF ne ob] l
    by (simp only: t) (auto simp: ih split: option.splits)
qed

lemma pathLoop_left:
  "tx + int k \<le> 7 \<Longrightarrow> - 1 \<le> tx \<Longrightarrow> 0 \<le> y \<Longrightarrow> y \<le> 7 \<Longrightarrow>
   pathLoop g (- 1) 0 tx y (tx + int k) y
     = Ret (list_all (\<lambda>x. board g y x = None) [tx + 1 .. tx + int k])"
proof (induction k)
  case 0
  then show ?case by (simp add: pathLoop_done)
next
  case (Suc k)
  have ob: "onBoard (tx + int (Suc k)) y" using Suc.prems by (simp add: onBoard_def)
  have ne: "tx + int (Suc k) \<noteq> tx \<or> y \<noteq> y" by simp
  have ih: "pathLoop g (- 1) 0 tx y (tx + int k) y
     = Ret (list_all (\<lambda>x. board g y x = None) [tx + 1 .. tx + int k])"
    using Suc.prems by (intro Suc.IH) auto
  have l: "[tx + 1 .. tx + int (Suc k)] = [tx + 1 .. tx + int k] @ [tx + int (Suc k)]"
    using upto_rec2 [of "tx + 1" "tx + int (Suc k)"] by (simp add: algebra_simps)
  have t: "tx + int (Suc k) + - 1 = tx + int k" by simp
  show ?case
    unfolding pathLoop_step [OF ne ob] l
    by (simp only: t add_0_right) (auto simp: ih split: option.splits)
qed

lemma isPathClear_rank:
  assumes "onBoard fx y" and "0 \<le> rx" and "rx \<le> 7" and "rx \<noteq> fx"
  shows "isPathClear g fx y rx y = Ret (clearBetween g y fx rx)"
proof (cases "fx < rx")
  case True
  define k where "k = nat (rx - fx - 1)"
  have r: "rx = fx + 1 + int k" using True by (simp add: k_def)
  have "pathLoop g 1 0 (fx + 1 + int k) y (fx + 1) y
     = Ret (list_all (\<lambda>x. board g y x = None) [fx + 1 .. fx + 1 + int k - 1])"
    using assms True by (intro pathLoop_right) (auto simp: onBoard_def k_def)
  moreover have "isPathClear g fx y rx y = pathLoop g 1 0 rx y (fx + 1) y"
    using True by (simp add: isPathClear_def quot_pos Let_def)
  moreover have "clearBetween g y fx rx
     = list_all (\<lambda>x. board g y x = None) [fx + 1 .. fx + 1 + int k - 1]"
    using True by (simp add: clearBetween_def r min_def max_def)
  ultimately show ?thesis
    by (simp add: r)
next
  case False
  with assms have lt: "rx < fx" by simp
  define k where "k = nat (fx - rx - 1)"
  have r: "fx - 1 = rx + int k" using lt by (simp add: k_def)
  have "pathLoop g (- 1) 0 rx y (rx + int k) y
     = Ret (list_all (\<lambda>x. board g y x = None) [rx + 1 .. rx + int k])"
    using assms lt by (intro pathLoop_left) (auto simp: onBoard_def k_def)
  moreover have "isPathClear g fx y rx y = pathLoop g (- 1) 0 rx y (fx - 1) y"
    using lt by (simp add: isPathClear_def quot_neg Let_def)
  moreover have "clearBetween g y fx rx
     = list_all (\<lambda>x. board g y x = None) [rx + 1 .. rx + int k]"
    using lt r by (simp add: clearBetween_def min_def max_def)
  ultimately show ?thesis
    by (simp add: r)
qed

lemma pathLoop_returns:
  assumes "tx = cx + int k * sx" and "ty = cy + int k * sy"
    and "sx \<in> {- 1, 0, 1}" and "sy \<in> {- 1, 0, 1}" and "sx \<noteq> 0 \<or> sy \<noteq> 0"
    and "onBoard cx cy" and "onBoard tx ty"
  shows "\<exists>b. pathLoop g sx sy tx ty cx cy = Ret b"
  using assms
proof (induction k arbitrary: cx cy)
  case 0
  then show ?case by (auto simp: pathLoop_done)
next
  case (Suc k)
  have ne: "cx \<noteq> tx \<or> cy \<noteq> ty" using Suc.prems by auto
  have nx: "onBoard (cx + sx) (cy + sy)"
    using Suc.prems(1-4,6,7) by (auto simp: onBoard_def algebra_simps)
  have "\<exists>b. pathLoop g sx sy tx ty (cx + sx) (cy + sy) = Ret b"
    using Suc.prems nx by (intro Suc.IH) (auto simp: algebra_simps)
  then show ?case
    unfolding pathLoop_step [OF ne Suc.prems(6)] by (auto split: option.splits)
qed

lemma isPathClear_returns:
  assumes "onBoard fx fy" and "onBoard tx ty"
    and "fx = tx \<or> fy = ty \<or> \<bar>tx - fx\<bar> = \<bar>ty - fy\<bar>"
  shows "\<exists>b. isPathClear g fx fy tx ty = Ret b"
proof (cases "fx = tx \<and> fy = ty")
  case True
  then show ?thesis by (auto simp: isPathClear_def pathLoop_done)
next
  case False
  define sx where "sx = sgn (tx - fx)"
  define sy where "sy = sgn (ty - fy)"
  define k where "k = nat (max \<bar>tx - fx\<bar> \<bar>ty - fy\<bar> - 1)"
  have s: "sx \<in> {- 1, 0, 1}" "sy \<in> {- 1, 0, 1}" "sx \<noteq> 0 \<or> sy \<noteq> 0"
    using False by (auto simp: sx_def sy_def sgn_if)
  have t: "tx = fx + sx + int k * sx" "ty = fy + sy + int k * sy"
    using assms(3) False by (auto simp: sx_def sy_def k_def sgn_if algebra_simps)
  have ob: "onBoard (fx + sx) (fy + sy)"
    using assms(1,2) False by (auto simp: onBoard_def sx_def sy_def sgn_if)
  have e: "isPathClear g fx fy tx ty = pathLoop g sx sy tx ty (fx + sx) (fy + sy)"
    by (auto simp: isPathClear_def Let_def quot_sgn sx_def sy_def)
  show ?thesis
    unfolding e using pathLoop_returns [OF t s ob assms(2)] .
qed

lemma pathLoop_total:
  assumes "sx \<noteq> 0 \<or> sy \<noteq> 0"
  shows "pathLoop g sx sy tx ty cx cy \<noteq> None"
proof (induction "if sx \<noteq> 0 then (if sx > 0 then nat (8 - cx) else nat (cx + 1))
                  else (if sy > 0 then nat (8 - cy) else nat (cy + 1))"
       arbitrary: cx cy rule: less_induct)
  case less
  show ?case
  proof (cases "cx \<noteq> tx \<or> cy \<noteq> ty")
    case False
    then show ?thesis by (simp add: pathLoop_done)
  next
    case ne: True
    show ?thesis
    proof (cases "onBoard cx cy")
      case False
      then show ?thesis using ne by (simp add: pathLoop_off)
    next
      case ob: True
      have "pathLoop g sx sy tx ty (cx + sx) (cy + sy) \<noteq> None"
        using assms ob by (intro less) (auto simp: onBoard_def)
      then show ?thesis
        unfolding pathLoop_step [OF ne ob] by (auto split: option.splits)
    qed
  qed
qed

lemma isPathClear_total: "isPathClear g fx fy tx ty \<noteq> None"
proof (cases "fx = tx \<and> fy = ty")
  case True
  then show ?thesis by (simp add: isPathClear_def pathLoop_done)
next
  case False
  then have "sgn (tx - fx) \<noteq> 0 \<or> sgn (ty - fy) \<noteq> 0" by (auto simp: sgn_if)
  then have "pathLoop g (sgn (tx - fx)) (sgn (ty - fy)) tx ty
               (fx + sgn (tx - fx)) (fy + sgn (ty - fy)) \<noteq> None"
    by (rule pathLoop_total)
  moreover have "isPathClear g fx fy tx ty
     = pathLoop g (sgn (tx - fx)) (sgn (ty - fy)) tx ty
               (fx + sgn (tx - fx)) (fy + sgn (ty - fy))"
    by (auto simp: isPathClear_def Let_def quot_sgn)
  ultimately show ?thesis
    by simp
qed

subsection \<open>The shape of \<open>isMoveLegal\<close>\<close>

lemma isMoveLegal_pawn:
  assumes "Type p = Pawn" and "onBoard fx fy"
  shows "isMoveLegal n g p fx fy tx ty = Ret (pawnMoveSpec g p fx fy tx ty)"
proof (cases "Color p")
  case Black
  show ?thesis using assms Black
    by (auto simp: isMoveLegal.simps pawnMoveSpec_def Let_def startRank_def onBoard_def
        isPathClear_black_two split: option.splits)
next
  case White
  show ?thesis using assms White
    by (auto simp: isMoveLegal.simps pawnMoveSpec_def Let_def startRank_def onBoard_def
        isPathClear_white_two split: option.splits)
qed

lemma isMoveLegal_probe:
  "castleProbe g p fx fy tx ty \<Longrightarrow>
   isMoveLegal n g p fx fy tx ty =
     (case isInCheck n g (Color p) of
        None \<Rightarrow> None
      | Some (Inl e) \<Rightarrow> Panic e
      | Some (Inr chk) \<Rightarrow> if chk then Ret False else castleRest g fx fy tx)"
  by (auto simp: castleProbe_def ownPieceAt_def isMoveLegal.simps onBoard_def castleRest_def
      Let_def split: option.splits sum.splits)

lemma isMoveLegal_noprobe:
  "\<not> castleProbe g p fx fy tx ty \<Longrightarrow>
   isMoveLegal n g p fx fy tx ty = isMoveLegal 0 g p fx fy tx ty"
  by (cases "Type p")
     (auto simp: castleProbe_def ownPieceAt_def isMoveLegal.simps onBoard_def Let_def
      split: option.splits)

lemma castleRest_returns:
  assumes "onBoard fx fy" and "\<bar>tx - fx\<bar> = 2" and "onBoard tx fy"
  shows "castleRest g fx fy tx =
     Ret ((\<exists>r. board g fy (if tx > fx then 7 else 0) = Some r \<and> Type r = Rook \<and> \<not> HasMoved r)
          \<and> clearBetween g fy fx (if tx > fx then 7 else 0))"
proof -
  have "isPathClear g fx fy (if tx > fx then 7 else 0) fy
          = Ret (clearBetween g fy fx (if tx > fx then 7 else 0))"
    using assms by (intro isPathClear_rank) (auto simp: onBoard_def)
  then show ?thesis
    by (auto simp: castleRest_def Let_def split: option.splits)
qed

lemma isMoveLegal_simple_returns:
  assumes "onBoard fx fy" and "\<not> castleProbe g p fx fy tx ty"
  shows "\<exists>b. isMoveLegal 0 g p fx fy tx ty = Ret b"
proof (cases "onBoard tx ty \<and> \<not> ownPieceAt g p tx ty")
  case False
  then show ?thesis
    by (auto simp: isMoveLegal.simps onBoard_def ownPieceAt_def Let_def split: option.splits)
next
  case True
  then have ob: "onBoard tx ty" and own: "\<not> ownPieceAt g p tx ty" by auto
  have pc: "fx = tx \<or> fy = ty \<or> \<bar>tx - fx\<bar> = \<bar>ty - fy\<bar>
          \<Longrightarrow> \<exists>b. isPathClear g fx fy tx ty = Ret b"
    using isPathClear_returns [OF assms(1) ob] by simp
  show ?thesis
  proof (cases "Type p")
    case Pawn
    then show ?thesis using isMoveLegal_pawn [OF _ assms(1)] by blast
  next
    case Bishop
    then show ?thesis using ob own pc
      by (auto simp: isMoveLegal.simps onBoard_def ownPieceAt_def Let_def split: option.splits)
  next
    case Rook
    then show ?thesis using ob own pc
      by (auto simp: isMoveLegal.simps onBoard_def ownPieceAt_def Let_def split: option.splits)
  next
    case Knight
    then show ?thesis using ob own
      by (auto simp: isMoveLegal.simps onBoard_def ownPieceAt_def Let_def split: option.splits)
  next
    case Queen
    then show ?thesis using ob own pc
      by (auto simp: isMoveLegal.simps onBoard_def ownPieceAt_def Let_def split: option.splits)
  next
    case King
    then show ?thesis using ob own assms(2)
      by (auto simp: isMoveLegal.simps onBoard_def ownPieceAt_def castleProbe_def Let_def
          split: option.splits)
  qed
qed


subsection \<open>A larger budget gives the same answer\<close>

lemma isMoveLegal_mono_step:
  assumes "\<And>c r. isInCheck n g c = Some r \<Longrightarrow> isInCheck m g c = Some r"
    and "isMoveLegal n g p fx fy tx ty = Some r"
  shows "isMoveLegal m g p fx fy tx ty = Some r"
proof (cases "castleProbe g p fx fy tx ty")
  case True
  from assms(2) obtain v where v: "isInCheck n g (Color p) = Some v"
    by (auto simp: isMoveLegal_probe [OF True] split: option.splits)
  from assms(1) [OF v] assms(2) v show ?thesis
    by (simp add: isMoveLegal_probe [OF True])
next
  case False
  from assms(2) show ?thesis
    by (simp add: isMoveLegal_noprobe [OF False, of n] isMoveLegal_noprobe [OF False, of m])
qed

lemma attackLoop_mono_step:
  assumes "\<And>c r. isInCheck n g c = Some r \<Longrightarrow> isInCheck m g c = Some r"
  shows "attackLoop n g x y c sqs = Some r \<Longrightarrow> attackLoop m g x y c sqs = Some r"
proof (induction sqs)
  case Nil
  then show ?case by simp
next
  case (Cons s sqs)
  obtain fx fy where s: "s = (fx, fy)" by (cases s)
  show ?case
  proof (cases "board g fy fx")
    case None
    then show ?thesis using Cons s by simp
  next
    case (Some p)
    show ?thesis
    proof (cases "Color p = c")
      case False
      then show ?thesis using Cons s Some by simp
    next
      case True
      from Cons.prems s Some True obtain v where
        v: "isMoveLegal n g p fx fy x y = Some v"
        by (auto split: option.splits)
      have v': "isMoveLegal m g p fx fy x y = Some v"
        using assms v by (rule isMoveLegal_mono_step)
      show ?thesis using Cons s Some True v v'
        by (auto split: sum.splits if_splits)
    qed
  qed
qed

lemma isInCheck_fuel_mono:
  "n \<le> m \<Longrightarrow> isInCheck n g c = Some r \<Longrightarrow> isInCheck m g c = Some r"
proof (induction n arbitrary: m g c r)
  case 0
  then show ?case by simp
next
  case (Suc n)
  from Suc.prems(1) obtain m' where m: "m = Suc m'" and le: "n \<le> m'"
    by (cases m) auto
  have step: "\<And>g c r. isInCheck n g c = Some r \<Longrightarrow> isInCheck m' g c = Some r"
    using Suc.IH [OF le] .
  show ?case
    using Suc.prems(2) attackLoop_mono_step [of n g m', OF step]
    unfolding m
    by (auto simp: isInCheck.simps isSquareAttacked.simps Let_def split: prod.splits if_splits)
qed

lemma isMoveLegal_fuel_mono:
  "n \<le> m \<Longrightarrow> isMoveLegal n g p fx fy tx ty = Some r
   \<Longrightarrow> isMoveLegal m g p fx fy tx ty = Some r"
  using isMoveLegal_mono_step [of n g m] isInCheck_fuel_mono [of n m g] by blast


lemma isMoveLegal_king:
  assumes "Type p = King" and "onBoard fx fy" and "onBoard tx ty"
    and "\<not> ownPieceAt g p tx ty"
  shows "isMoveLegal n g p fx fy tx ty = Ret True \<longleftrightarrow>
     (\<bar>tx - fx\<bar> \<le> 1 \<and> \<bar>ty - fy\<bar> \<le> 1)
      \<or> (ty = fy \<and> \<bar>tx - fx\<bar> = 2 \<and> \<not> HasMoved p
         \<and> isInCheck n g (Color p) = Ret False
         \<and> (let corner = (if tx > fx then 7 else 0) in
              (\<exists>r. board g fy corner = Some r \<and> Type r = Rook \<and> \<not> HasMoved r)
              \<and> clearBetween g fy fx corner))"
proof (cases "castleProbe g p fx fy tx ty")
  case True
  then have sh: "\<bar>tx - fx\<bar> = 2" "fy = ty" "\<not> HasMoved p"
    by (auto simp: castleProbe_def)
  have ob: "onBoard tx fy" using assms(3) sh by simp
  note e = isMoveLegal_probe [OF True, of n]
  note r = castleRest_returns [OF assms(2) sh(1) ob, of g]
  show ?thesis
    unfolding e r using sh
    by (auto simp: Let_def split: option.splits sum.splits)
next
  case False
  then have nc: "HasMoved p \<or> fy \<noteq> ty \<or> \<bar>tx - fx\<bar> \<noteq> 2"
    using assms by (auto simp: castleProbe_def)
  show ?thesis
    using assms nc
    by (auto simp: isMoveLegal.simps onBoard_def ownPieceAt_def Let_def split: option.splits)
qed

subsection \<open>Evaluation on the example positions\<close>

lemmas eval_simps =
  isInCheck.simps(2) isSquareAttacked.simps isMoveLegal.simps findKing_def squares_eq
  opp_def Let_def startRank_def isPathClear_def pathLoop.simps cellAt_def onBoard_def
  quot_i_def mkPiece_def typeIndex_def

lemma castleGame_not_in_check: "isInCheck (Suc 0) castleGame White = Ret False"
  by (simp add: eval_simps castleGame_def)

lemma castleGame_f1_attacked: "isSquareAttacked 0 castleGame 5 7 Black = Ret True"
  by (simp add: eval_simps castleGame_def)


subsection \<open>The king that \<open>isInCheck\<close> finds\<close>

lemma in_squares: "(x, y) \<in> set squares \<longleftrightarrow> onBoard x y"
  by (force simp: squares_def onBoard_def)

lemma squares_sorted: "sorted_wrt (\<lambda>a b. snd a \<le> snd b) squares"
  by (simp add: squares_eq)


lemma findKing_fold: "findKing g c = fold (kingStep g c) squares (- 1, - 1)"
proof -
  have "(\<lambda>(x, y) k. (case board g y x of
               Some p \<Rightarrow> if Type p = King \<and> Color p = c then (x, y) else k
             | None \<Rightarrow> k)) = kingStep g c"
    by (auto simp: fun_eq_iff kingStep_def kingAt_def split: option.splits)
  then show ?thesis
    by (simp add: findKing_def)
qed

lemma fold_kingStep_cases:
  "fold (kingStep g c) sqs k0 = k0
   \<or> (fold (kingStep g c) sqs k0 \<in> set sqs
      \<and> kingAt g c (fst (fold (kingStep g c) sqs k0)) (snd (fold (kingStep g c) sqs k0)))"
proof (induction sqs arbitrary: k0)
  case Nil
  then show ?case by simp
next
  case (Cons a sqs)
  show ?case
    using Cons.IH [of "kingStep g c a k0"]
    by (auto simp: kingStep_def split: if_splits)
qed

lemma fold_kingStep_last:
  assumes "sorted_wrt (\<lambda>a b. snd a \<le> snd b) sqs" and "s \<in> set sqs"
    and "kingAt g c (fst s) (snd s)"
  shows "snd s \<le> snd (fold (kingStep g c) sqs k0) \<and> fold (kingStep g c) sqs k0 \<in> set sqs"
  using assms(1,2)
proof (induction sqs arbitrary: k0)
  case Nil
  then show ?case by simp
next
  case (Cons a sqs)
  show ?case
  proof (cases "s \<in> set sqs")
    case True
    then show ?thesis using Cons by auto
  next
    case False
    with Cons.prems have a: "a = s" by auto
    have st: "kingStep g c s k0 = s"
      using assms(3) by (simp add: kingStep_def)
    from fold_kingStep_cases [of g c sqs s] Cons.prems(1) show ?thesis
      by (auto simp: st a)
  qed
qed

lemma findKing_cases:
  "findKing g c = (kx, ky) \<Longrightarrow>
   (kx, ky) = (- 1, - 1) \<or> (onBoard kx ky \<and> kingAt g c kx ky)"
  using fold_kingStep_cases [of g c squares "(- 1, - 1)"]
  by (auto simp: findKing_fold in_squares)

lemma findKing_last:
  assumes "onBoard x y" and "kingAt g c x y" and "findKing g c = (kx, ky)"
  shows "y \<le> ky \<and> kx \<noteq> - 1"
  using fold_kingStep_last [OF squares_sorted, of "(x, y)" g c "(- 1, - 1)"] assms
  by (auto simp: findKing_fold in_squares onBoard_def)


subsection \<open>The recursion ends when the unmoved kings are apart\<close>

lemma isMoveLegal_returns_if:
  assumes "onBoard fx fy"
    and "castleProbe g p fx fy tx ty \<Longrightarrow> \<exists>b. isInCheck n g (Color p) = Ret b"
  shows "\<exists>b. isMoveLegal n g p fx fy tx ty = Ret b"
proof (cases "castleProbe g p fx fy tx ty")
  case True
  from assms(2) [OF True] obtain chk where chk: "isInCheck n g (Color p) = Ret chk" ..
  from True have sh: "\<bar>tx - fx\<bar> = 2" "onBoard tx fy"
    by (auto simp: castleProbe_def)
  show ?thesis
    unfolding isMoveLegal_probe [OF True] chk castleRest_returns [OF assms(1) sh]
    by auto
next
  case False
  show ?thesis
    unfolding isMoveLegal_noprobe [OF False, of n]
    using assms(1) False by (rule isMoveLegal_simple_returns)
qed

lemma attackLoop_returns:
  assumes "\<And>fx fy p. (fx, fy) \<in> set sqs \<Longrightarrow> board g fy fx = Some p \<Longrightarrow> Color p = c
             \<Longrightarrow> \<exists>b. isMoveLegal n g p fx fy x y = Ret b"
  shows "\<exists>b. attackLoop n g x y c sqs = Ret b"
  using assms
proof (induction sqs)
  case Nil
  show ?case by auto
next
  case (Cons s sqs)
  obtain fx fy where s: "s = (fx, fy)" by (cases s)
  have ih: "\<exists>b. attackLoop n g x y c sqs = Ret b"
    by (rule Cons.IH) (auto intro: Cons.prems)
  show ?case
  proof (cases "board g fy fx")
    case None
    then show ?thesis using ih s by simp
  next
    case (Some p)
    show ?thesis
    proof (cases "Color p = c")
      case False
      then show ?thesis using ih s Some by simp
    next
      case True
      from Cons.prems [of fx fy p] s Some True obtain b where
        "isMoveLegal n g p fx fy x y = Ret b" by auto
      then show ?thesis using ih s Some True by auto
    qed
  qed
qed

lemma unmovedKingRanks_iff:
  "y \<in> set (unmovedKingRanks g c) \<longleftrightarrow>
     (\<exists>x p. onBoard x y \<and> board g y x = Some p \<and> Type p = King \<and> Color p = c
            \<and> \<not> HasMoved p)"
  by (force simp: unmovedKingRanks_def in_squares split: option.splits)

lemma castleProbe_king:
  "castleProbe g p fx fy tx ty \<Longrightarrow> Type p = King \<and> \<not> HasMoved p \<and> fy = ty"
  by (simp add: castleProbe_def)

lemma isInCheck_leaf:
  assumes "\<And>fx fy p. onBoard fx fy \<Longrightarrow> board g fy fx = Some p \<Longrightarrow> Color p = opp c
             \<Longrightarrow> \<not> castleProbe g p fx fy (fst (findKing g c)) (snd (findKing g c))"
  shows "\<exists>b. isInCheck (Suc n) g c = Ret b"
proof -
  obtain kx ky where k: "findKing g c = (kx, ky)" by (cases "findKing g c")
  have "\<exists>b. attackLoop n g kx ky (opp c) squares = Ret b"
  proof (rule attackLoop_returns)
    fix fx fy p
    assume a: "(fx, fy) \<in> set squares" "board g fy fx = Some p" "Color p = opp c"
    then have ob: "onBoard fx fy" by (simp add: in_squares)
    from assms [OF ob a(2,3)] have "\<not> castleProbe g p fx fy kx ky" by (simp add: k)
    with ob show "\<exists>b. isMoveLegal n g p fx fy kx ky = Ret b"
      by (intro isMoveLegal_returns_if) auto
  qed
  then show ?thesis
    by (auto simp: isInCheck.simps k isSquareAttacked.simps)
qed

lemma opp_opp [simp]: "opp (opp c) = c"
  by (cases c) (simp_all add: opp_def)

lemma opp_White [simp]: "opp White = Black" and opp_Black [simp]: "opp Black = White"
  by (simp_all add: opp_def)

lemma isInCheck_returns_apart:
  assumes "kingsApart 1 g"
  shows "\<exists>b. isInCheck (Suc (Suc n)) g c = Ret b"
proof -
  obtain kx ky where k: "findKing g c = (kx, ky)" by (cases "findKing g c")
  obtain kx' ky' where k': "findKing g (opp c) = (kx', ky')" by (cases "findKing g (opp c)")
  have "\<exists>b. attackLoop (Suc n) g kx ky (opp c) squares = Ret b"
  proof (rule attackLoop_returns)
    fix fx fy p
    assume a: "(fx, fy) \<in> set squares" "board g fy fx = Some p" "Color p = opp c"
    then have ob: "onBoard fx fy" by (simp add: in_squares)
    show "\<exists>b. isMoveLegal (Suc n) g p fx fy kx ky = Ret b"
    proof (rule isMoveLegal_returns_if [OF ob])
      assume pr: "castleProbe g p fx fy kx ky"
      then have pk: "Type p = King" "\<not> HasMoved p" "fy = ky"
        by (auto dest: castleProbe_king)
      have r1: "fy \<in> set (unmovedKingRanks g (opp c))"
        unfolding unmovedKingRanks_iff using ob a(2,3) pk by blast
      have "\<exists>b. isInCheck (Suc n) g (opp c) = Ret b"
      proof (rule isInCheck_leaf)
        fix qx qy q
        assume b: "onBoard qx qy" "board g qy qx = Some q" "Color q = opp (opp c)"
        show "\<not> castleProbe g q qx qy (fst (findKing g (opp c))) (snd (findKing g (opp c)))"
        proof
          assume "castleProbe g q qx qy (fst (findKing g (opp c))) (snd (findKing g (opp c)))"
          then have qk: "Type q = King" "\<not> HasMoved q" "qy = ky'"
            by (auto dest: castleProbe_king simp: k')
          have r2: "qy \<in> set (unmovedKingRanks g c)"
            unfolding unmovedKingRanks_iff using b qk by auto
          have l1: "qy \<le> ky"
            using findKing_last [OF b(1) _ k, of ] b(2,3) qk(1)
            by (auto simp: kingAt_def)
          have l2: "fy \<le> ky'"
            using findKing_last [OF ob _ k'] a(2,3) pk(1)
            by (auto simp: kingAt_def)
          show False
          proof (cases c)
            case White
            with assms r1 r2 have "fy + 1 \<le> qy"
              by (auto simp: kingsApart_def)
            with l1 pk(3) show False by simp
          next
            case Black
            with assms r1 r2 have "qy + 1 \<le> fy"
              by (auto simp: kingsApart_def)
            with l2 qk(3) show False by simp
          qed
        qed
      qed
      with a(3) show "\<exists>b. isInCheck (Suc n) g (Color p) = Ret b" by simp
    qed
  qed
  then show ?thesis
    by (auto simp: isInCheck.simps k isSquareAttacked.simps)
qed

lemma isInCheck_returns_ge2:
  assumes "kingsApart 1 g" and "2 \<le> n"
  shows "\<exists>b. isInCheck n g c = Ret b"
proof -
  from assms(2) obtain m where "n = Suc (Suc m)"
    by (metis add_2_eq_Suc le_Suc_ex)
  with isInCheck_returns_apart [OF assms(1)] show ?thesis by simp
qed

lemma isMoveLegal_returns_ge2:
  assumes "kingsApart 1 g" and "2 \<le> n" and "onBoard fx fy"
  shows "\<exists>b. isMoveLegal n g p fx fy tx ty = Ret b"
  using assms isInCheck_returns_ge2 by (intro isMoveLegal_returns_if) auto


subsection \<open>The loops of \<open>hasLegalMoves\<close>\<close>

lemma undoMove_simulateMove:
  assumes "board g fy fx = Some p"
  shows "undoMove (simulateMove g p fx fy tx ty) p (board g ty tx) fx fy tx ty = g"
proof -
  have "board (undoMove (simulateMove g p fx fy tx ty) p (board g ty tx) fx fy tx ty)
          = board g"
    using assms by (auto simp: fun_eq_iff undoMove_def simulateMove_def)
  moreover have "undoMove (simulateMove g p fx fy tx ty) p (board g ty tx) fx fy tx ty
     = g\<lparr>board := board (undoMove (simulateMove g p fx fy tx ty) p (board g ty tx)
                         fx fy tx ty)\<rparr>"
    by (simp add: undoMove_def simulateMove_def setCell_def)
  ultimately show ?thesis
    by simp
qed

lemma legalToLoop_Ret:
  assumes "board g fy fx = Some p" and "legalToLoop n g c p fx fy sqs = Ret (b, g')"
  shows "g' = g \<and> (b \<longleftrightarrow> (\<exists>(tx, ty) \<in> set sqs. moveOK n g c p fx fy tx ty))"
  using assms(2)
proof (induction sqs)
  case Nil
  then show ?case by simp
next
  case (Cons s sqs)
  obtain tx ty where s: "s = (tx, ty)" by (cases s)
  note u = undoMove_simulateMove [OF assms(1), of tx ty]
  from Cons.prems obtain legal where l: "isMoveLegal n g p fx fy tx ty = Ret legal"
    by (auto simp: s split: option.splits sum.splits)
  show ?case
  proof (cases legal)
    case False
    with Cons l show ?thesis
      by (auto simp: s moveOK_def)
  next
    case True
    from Cons.prems l True obtain chk where
      c: "isInCheck n (simulateMove g p fx fy tx ty) c = Ret chk"
      by (auto simp: s Let_def split: option.splits sum.splits)
    show ?thesis
    proof (cases chk)
      case True
      with Cons l \<open>legal\<close> c show ?thesis
        by (auto simp: s moveOK_def Let_def u)
    next
      case False
      with Cons.prems l \<open>legal\<close> c show ?thesis
        by (auto simp: s moveOK_def Let_def u)
    qed
  qed
qed

lemma legalToLoop_total:
  assumes "board g fy fx = Some p"
    and "\<And>tx ty. (tx, ty) \<in> set sqs \<Longrightarrow> \<exists>b. isMoveLegal n g p fx fy tx ty = Ret b"
    and "\<And>tx ty. (tx, ty) \<in> set sqs \<Longrightarrow> isMoveLegal n g p fx fy tx ty = Ret True
           \<Longrightarrow> \<exists>b. isInCheck n (simulateMove g p fx fy tx ty) c = Ret b"
  shows "\<exists>b. legalToLoop n g c p fx fy sqs = Ret (b, g)"
  using assms(2,3)
proof (induction sqs)
  case Nil
  show ?case by auto
next
  case (Cons s sqs)
  obtain tx ty where s: "s = (tx, ty)" by (cases s)
  note u = undoMove_simulateMove [OF assms(1), of tx ty]
  have ih: "\<exists>b. legalToLoop n g c p fx fy sqs = Ret (b, g)"
    by (rule Cons.IH) (auto intro: Cons.prems)
  from Cons.prems(1) [of tx ty] obtain legal where
    l: "isMoveLegal n g p fx fy tx ty = Ret legal" by (auto simp: s)
  show ?case
  proof (cases legal)
    case False
    with ih l show ?thesis by (simp add: s)
  next
    case True
    with Cons.prems(2) [of tx ty] l obtain chk where
      "isInCheck n (simulateMove g p fx fy tx ty) c = Ret chk" by (auto simp: s)
    with ih l True show ?thesis
      by (auto simp: s Let_def u)
  qed
qed

lemma legalFromLoop_Ret:
  assumes "legalFromLoop n g c sqs = Ret (b, g')"
  shows "g' = g \<and> (b \<longleftrightarrow> (\<exists>(fx, fy) \<in> set sqs. pieceOK n g c fx fy))"
  using assms
proof (induction sqs)
  case Nil
  then show ?case by simp
next
  case (Cons s sqs)
  obtain fx fy where s: "s = (fx, fy)" by (cases s)
  show ?case
  proof (cases "board g fy fx")
    case None
    with Cons show ?thesis by (auto simp: s pieceOK_def)
  next
    case (Some p)
    show ?thesis
    proof (cases "Color p = c")
      case False
      with Cons Some show ?thesis by (auto simp: s pieceOK_def)
    next
      case True
      from Cons.prems Some True obtain found g1 where
        t: "legalToLoop n g c p fx fy squares = Ret (found, g1)"
        by (auto simp: s split: option.splits sum.splits)
      from legalToLoop_Ret [OF Some t] have g1: "g1 = g"
        and f: "found \<longleftrightarrow> (\<exists>(tx, ty) \<in> set squares. moveOK n g c p fx fy tx ty)" by auto
      show ?thesis
      proof (cases found)
        case True
        with Cons.prems Some \<open>Color p = c\<close> t g1 f show ?thesis
          by (auto simp: s pieceOK_def)
      next
        case False
        with Cons Some \<open>Color p = c\<close> t g1 f show ?thesis
          by (auto simp: s pieceOK_def)
      qed
    qed
  qed
qed

lemma legalFromLoop_total:
  assumes "\<And>fx fy p. (fx, fy) \<in> set sqs \<Longrightarrow> board g fy fx = Some p \<Longrightarrow> Color p = c
             \<Longrightarrow> \<exists>b. legalToLoop n g c p fx fy squares = Ret (b, g)"
  shows "\<exists>b. legalFromLoop n g c sqs = Ret (b, g)"
  using assms
proof (induction sqs)
  case Nil
  show ?case by auto
next
  case (Cons s sqs)
  obtain fx fy where s: "s = (fx, fy)" by (cases s)
  have ih: "\<exists>b. legalFromLoop n g c sqs = Ret (b, g)"
    by (rule Cons.IH, rule Cons.prems) simp_all
  show ?case
  proof (cases "board g fy fx")
    case None
    with ih show ?thesis by (simp add: s)
  next
    case (Some p)
    show ?thesis
    proof (cases "Color p = c")
      case False
      with ih Some show ?thesis by (simp add: s)
    next
      case True
      from Cons.prems [of fx fy p] Some True obtain found where
        "legalToLoop n g c p fx fy squares = Ret (found, g)" by (auto simp: s)
      with ih Some True show ?thesis
        by (auto simp: s)
    qed
  qed
qed

lemma kingsApart_mono: "d' \<le> d \<Longrightarrow> kingsApart d g \<Longrightarrow> kingsApart d' g"
  by (fastforce simp: kingsApart_def)

lemma king_move_rank:
  assumes "Type p = King" and "isMoveLegal n g p fx fy tx ty = Ret True"
  shows "\<bar>ty - fy\<bar> \<le> 1"
proof (cases "castleProbe g p fx fy tx ty")
  case True
  then show ?thesis by (simp add: castleProbe_def)
next
  case False
  with assms show ?thesis
    by (auto simp: isMoveLegal.simps castleProbe_def ownPieceAt_def onBoard_def Let_def
        split: if_splits option.splits)
qed

lemma simulateMove_ranks:
  assumes "y \<in> set (unmovedKingRanks (simulateMove g p fx fy tx ty) c)"
  shows "y \<in> set (unmovedKingRanks g c)
         \<or> (y = ty \<and> Type p = King \<and> Color p = c \<and> \<not> HasMoved p)"
proof -
  from assms obtain x q where q: "onBoard x y"
    "board (simulateMove g p fx fy tx ty) y x = Some q" "Type q = King" "Color q = c"
    "\<not> HasMoved q"
    unfolding unmovedKingRanks_iff by blast
  show ?thesis
  proof (cases "x = tx \<and> y = ty")
    case True
    with q show ?thesis
      by (auto simp: simulateMove_def split: if_splits)
  next
    case False
    with q have "board g y x = Some q"
      by (auto simp: simulateMove_def split: if_splits)
    with q show ?thesis
      unfolding unmovedKingRanks_iff by blast
  qed
qed

lemma simulateMove_kingsApart:
  assumes "kingsApart 2 g" and "board g fy fx = Some p" and "onBoard fx fy"
    and "isMoveLegal n g p fx fy tx ty = Ret True"
  shows "kingsApart 1 (simulateMove g p fx fy tx ty)"
  unfolding kingsApart_def
proof (intro ballI)
  fix rw rb
  assume w: "rw \<in> set (unmovedKingRanks (simulateMove g p fx fy tx ty) White)"
    and b: "rb \<in> set (unmovedKingRanks (simulateMove g p fx fy tx ty) Black)"
  have home: "fy \<in> set (unmovedKingRanks g (Color p)) \<and> \<bar>ty - fy\<bar> \<le> 1"
    if "Type p = King" "\<not> HasMoved p"
    using assms(2,3) king_move_rank [OF _ assms(4)] that
    unfolding unmovedKingRanks_iff by blast
  have ap: "b' + 2 \<le> w'"
    if "w' \<in> set (unmovedKingRanks g White)" "b' \<in> set (unmovedKingRanks g Black)" for w' b'
    using assms(1) that by (simp add: kingsApart_def)
  from simulateMove_ranks [OF w] show "rb + 1 \<le> rw"
  proof
    assume w0: "rw \<in> set (unmovedKingRanks g White)"
    from simulateMove_ranks [OF b] show ?thesis
    proof
      assume "rb \<in> set (unmovedKingRanks g Black)"
      with w0 ap show ?thesis by fastforce
    next
      assume pb: "rb = ty \<and> Type p = King \<and> Color p = Black \<and> \<not> HasMoved p"
      with home have "fy \<in> set (unmovedKingRanks g Black)" "\<bar>ty - fy\<bar> \<le> 1" by auto
      with ap [OF w0, of fy] pb show ?thesis by auto
    qed
  next
    assume pw: "rw = ty \<and> Type p = King \<and> Color p = White \<and> \<not> HasMoved p"
    with home have h: "fy \<in> set (unmovedKingRanks g White)" "\<bar>ty - fy\<bar> \<le> 1" by auto
    from simulateMove_ranks [OF b] pw have "rb \<in> set (unmovedKingRanks g Black)" by auto
    with ap [OF h(1), of rb] h(2) pw show ?thesis by auto
  qed
qed

lemma returns_agree:
  assumes "isMoveLegal n g p fx fy tx ty = Ret b" and "isMoveLegal m g p fx fy tx ty = Ret b'"
  shows "b = b'"
  using isMoveLegal_fuel_mono [of n "max n m", OF _ assms(1)]
    isMoveLegal_fuel_mono [of m "max n m", OF _ assms(2)]
  by simp

lemma check_agree:
  assumes "isInCheck n g c = Ret b" and "isInCheck m g c = Ret b'"
  shows "b = b'"
  using isInCheck_fuel_mono [of n "max n m", OF _ assms(1)]
    isInCheck_fuel_mono [of m "max n m", OF _ assms(2)]
  by simp

lemma moveOK_iff:
  assumes "kingsApart 2 g" and "2 \<le> n" and "board g fy fx = Some p" and "onBoard fx fy"
  shows "moveOK n g c p fx fy tx ty \<longleftrightarrow>
     isMoveLegal_returns g p fx fy tx ty True
     \<and> isInCheck_returns (simulateMove g p fx fy tx ty) c False"
proof
  assume "moveOK n g c p fx fy tx ty"
  then show "isMoveLegal_returns g p fx fy tx ty True
     \<and> isInCheck_returns (simulateMove g p fx fy tx ty) c False"
    by (auto simp: moveOK_def isMoveLegal_returns_def isInCheck_returns_def)
next
  assume r: "isMoveLegal_returns g p fx fy tx ty True
     \<and> isInCheck_returns (simulateMove g p fx fy tx ty) c False"
  have k1: "kingsApart 1 g"
    using assms(1) by (rule kingsApart_mono [rotated]) simp
  from isMoveLegal_returns_ge2 [OF k1 assms(2,4)] obtain b where
    b: "isMoveLegal n g p fx fy tx ty = Ret b" by blast
  with r have l: "isMoveLegal n g p fx fy tx ty = Ret True"
    by (auto simp: isMoveLegal_returns_def dest: returns_agree)
  have "kingsApart 1 (simulateMove g p fx fy tx ty)"
    using assms(1,3,4) l by (rule simulateMove_kingsApart)
  from isInCheck_returns_ge2 [OF this assms(2)] obtain b' where
    "isInCheck n (simulateMove g p fx fy tx ty) c = Ret b'" by blast
  with r have "isInCheck n (simulateMove g p fx fy tx ty) c = Ret False"
    by (auto simp: isInCheck_returns_def dest: check_agree)
  with l show "moveOK n g c p fx fy tx ty"
    by (simp add: moveOK_def)
qed

lemma hasLegalMoves_restores:
  "hasLegalMoves n g c = Ret (b, g') \<Longrightarrow> g' = g"
  by (auto simp: hasLegalMoves_def dest: legalFromLoop_Ret)

lemma hasLegalMoves_sound:
  assumes "hasLegalMoves n g c = Ret (True, g')"
  shows "hasFullyLegalMove g c"
proof -
  from legalFromLoop_Ret [of n g c squares True g'] assms
  obtain fx fy where f: "(fx, fy) \<in> set squares" "pieceOK n g c fx fy"
    by (auto simp: hasLegalMoves_def)
  then obtain p tx ty where "board g fy fx = Some p" "Color p = c" "(tx, ty) \<in> set squares"
    "moveOK n g c p fx fy tx ty"
    by (auto simp: pieceOK_def)
  then have "fullyLegalMove g c fx fy tx ty"
    by (auto simp: fullyLegalMove_def moveOK_def isMoveLegal_returns_def isInCheck_returns_def)
  with f(1) \<open>(tx, ty) \<in> set squares\<close> show ?thesis
    by (auto simp: hasFullyLegalMove_def)
qed

lemma pieceOK_iff:
  assumes "kingsApart 2 g" and "2 \<le> n" and "onBoard fx fy"
  shows "pieceOK n g c fx fy \<longleftrightarrow> (\<exists>(tx, ty) \<in> set squares. fullyLegalMove g c fx fy tx ty)"
proof (cases "board g fy fx")
  case None
  then show ?thesis by (simp add: pieceOK_def fullyLegalMove_def)
next
  case (Some p)
  note m = moveOK_iff [OF assms(1,2) Some assms(3)]
  show ?thesis
  proof
    assume "pieceOK n g c fx fy"
    then obtain tx ty where t: "(tx, ty) \<in> set squares" "Color p = c"
      "moveOK n g c p fx fy tx ty"
      by (auto simp: pieceOK_def Some)
    then have "fullyLegalMove g c fx fy tx ty"
      using m [of c tx ty] by (simp add: fullyLegalMove_def Some)
    with t(1) show "\<exists>(tx, ty) \<in> set squares. fullyLegalMove g c fx fy tx ty"
      by blast
  next
    assume "\<exists>(tx, ty) \<in> set squares. fullyLegalMove g c fx fy tx ty"
    then obtain tx ty where t: "(tx, ty) \<in> set squares" "fullyLegalMove g c fx fy tx ty"
      by blast
    then have "Color p = c" "moveOK n g c p fx fy tx ty"
      using m [of c tx ty] by (auto simp: fullyLegalMove_def Some)
    with t(1) show "pieceOK n g c fx fy"
      unfolding pieceOK_def Some by blast
  qed
qed

lemma hasLegalMoves_complete:
  assumes "kingsApart 2 g" and "2 \<le> n"
  shows "hasLegalMoves n g c = Ret (hasFullyLegalMove g c, g)"
proof -
  have k1: "kingsApart 1 g"
    using assms(1) by (rule kingsApart_mono [rotated]) simp
  have "\<exists>b. legalFromLoop n g c squares = Ret (b, g)"
  proof (rule legalFromLoop_total)
    fix fx fy p
    assume a: "(fx, fy) \<in> set squares" "board g fy fx = Some p" "Color p = c"
    then have ob: "onBoard fx fy" by (simp add: in_squares)
    show "\<exists>b. legalToLoop n g c p fx fy squares = Ret (b, g)"
    proof (rule legalToLoop_total [OF a(2)])
      fix tx ty
      show "\<exists>b. isMoveLegal n g p fx fy tx ty = Ret b"
        using k1 assms(2) ob by (rule isMoveLegal_returns_ge2)
    next
      fix tx ty
      assume "isMoveLegal n g p fx fy tx ty = Ret True"
      with assms(1) a(2) ob have "kingsApart 1 (simulateMove g p fx fy tx ty)"
        by (rule simulateMove_kingsApart)
      then show "\<exists>b. isInCheck n (simulateMove g p fx fy tx ty) c = Ret b"
        using assms(2) by (rule isInCheck_returns_ge2)
    qed
  qed
  then obtain b where b: "legalFromLoop n g c squares = Ret (b, g)" ..
  from legalFromLoop_Ret [OF b] have
    "b \<longleftrightarrow> (\<exists>(fx, fy) \<in> set squares. pieceOK n g c fx fy)" by simp
  also have "\<dots> \<longleftrightarrow> hasFullyLegalMove g c"
  proof -
    have "pieceOK n g c fx fy \<longleftrightarrow>
            (\<exists>(tx, ty) \<in> set squares. fullyLegalMove g c fx fy tx ty)"
      if "(fx, fy) \<in> set squares" for fx fy
      using that by (intro pieceOK_iff [OF assms]) (simp add: in_squares)
    then show ?thesis
      unfolding hasFullyLegalMove_def by blast
  qed
  finally show ?thesis
    using b by (simp add: hasLegalMoves_def)
qed

subsection \<open>More evaluation on the example positions\<close>

lemma hasFullyLegalMoveI:
  "onBoard fx fy \<Longrightarrow> onBoard tx ty \<Longrightarrow> fullyLegalMove g c fx fy tx ty
   \<Longrightarrow> hasFullyLegalMove g c"
  unfolding hasFullyLegalMove_def in_squares [symmetric] by blast

lemma sideKings_diverges:
  "isInCheck n sideKingsGame White = None \<and> isInCheck n sideKingsGame Black = None"
proof (induction n)
  case 0
  show ?case by simp
next
  case (Suc n)
  then show ?case
    by (simp add: eval_simps sideKingsGame_def)
qed

lemma sideKings_hasLegalMoves: "hasLegalMoves n sideKingsGame White = None"
proof -
  have "isMoveLegal n sideKingsGame (mkPiece King White False) 2 0 0 0 = None"
    using sideKings_diverges [of n]
    by (simp add: isMoveLegal.simps sideKingsGame_def mkPiece_def)
  then show ?thesis
    by (simp add: hasLegalMoves_def squares_eq sideKingsGame_def mkPiece_def)
qed

lemma sideKings_move: "fullyLegalMove sideKingsGame White 2 0 1 0"
proof -
  have "isMoveLegal 0 sideKingsGame (mkPiece King White False) 2 0 1 0 = Ret True"
    by (simp add: isMoveLegal.simps sideKingsGame_def mkPiece_def)
  moreover have "isInCheck (Suc 0)
      (simulateMove sideKingsGame (mkPiece King White False) 2 0 1 0) White = Ret False"
    by (simp add: eval_simps sideKingsGame_def simulateMove_def)
  ultimately show ?thesis
    unfolding fullyLegalMove_def isMoveLegal_returns_def isInCheck_returns_def
    by (intro exI [of _ "mkPiece King White False"] conjI exI)
       (simp_all add: sideKingsGame_def mkPiece_def)
qed

lemma castleGame_apart: "kingsApart 2 castleGame"
  by (simp add: kingsApart_def unmovedKingRanks_def squares_eq castleGame_def mkPiece_def)

lemma castleGame_move: "fullyLegalMove castleGame White 4 7 3 6"
proof -
  have "isMoveLegal 0 castleGame (mkPiece King White False) 4 7 3 6 = Ret True"
    by (simp add: isMoveLegal.simps castleGame_def mkPiece_def)
  moreover have "isInCheck (Suc 0)
      (simulateMove castleGame (mkPiece King White False) 4 7 3 6) White = Ret False"
    by (simp add: eval_simps castleGame_def simulateMove_def)
  ultimately show ?thesis
    unfolding fullyLegalMove_def isMoveLegal_returns_def isInCheck_returns_def
    by (intro exI [of _ "mkPiece King White False"] conjI exI)
       (simp_all add: castleGame_def mkPiece_def)
qed

subsection \<open>What the legality functions read; the end of the game; a rejected click\<close>

lemma pathLoop_sameBoard:
  assumes "board g' = board g" and "sx \<noteq> 0 \<or> sy \<noteq> 0"
  shows "pathLoop g' sx sy tx ty cx cy = pathLoop g sx sy tx ty cx cy"
proof (induction "if sx \<noteq> 0 then (if sx > 0 then nat (8 - cx) else nat (cx + 1))
                  else (if sy > 0 then nat (8 - cy) else nat (cy + 1))"
       arbitrary: cx cy rule: less_induct)
  case less
  show ?case
  proof (cases "cx \<noteq> tx \<or> cy \<noteq> ty")
    case False
    then show ?thesis by (simp add: pathLoop_done)
  next
    case ne: True
    show ?thesis
    proof (cases "onBoard cx cy")
      case False
      then show ?thesis using ne by (simp add: pathLoop_off)
    next
      case ob: True
      have ih: "pathLoop g' sx sy tx ty (cx + sx) (cy + sy)
              = pathLoop g sx sy tx ty (cx + sx) (cy + sy)"
        using assms(2) ob by (intro less) (auto simp: onBoard_def)
      show ?thesis
        unfolding pathLoop_step [OF ne ob] assms(1) ih ..
    qed
  qed
qed

lemma isPathClear_sameBoard:
  assumes "board g' = board g"
  shows "isPathClear g' fx fy tx ty = isPathClear g fx fy tx ty"
proof (cases "fx = tx \<and> fy = ty")
  case True
  then show ?thesis by (simp add: isPathClear_def pathLoop_done)
next
  case False
  then have s: "sgn (tx - fx) \<noteq> 0 \<or> sgn (ty - fy) \<noteq> 0" by (auto simp: sgn_if)
  have e: "isPathClear h fx fy tx ty
     = pathLoop h (sgn (tx - fx)) (sgn (ty - fy)) tx ty
               (fx + sgn (tx - fx)) (fy + sgn (ty - fy))" for h
    by (auto simp: isPathClear_def Let_def quot_sgn)
  show ?thesis
    unfolding e using assms s by (rule pathLoop_sameBoard)
qed

lemma findKing_sameBoard: "board g' = board g \<Longrightarrow> findKing g' c = findKing g c"
  by (simp add: findKing_def)

lemma isMoveLegal_sameBoard_step:
  assumes "sameBoard g g'" and "\<And>c. isInCheck n g' c = isInCheck n g c"
  shows "isMoveLegal n g' p fx fy tx ty = isMoveLegal n g p fx fy tx ty"
proof -
  from assms(1) have b: "board g' = board g" and ex: "epX g' = epX g" and ey: "epY g' = epY g"
    by (simp_all add: sameBoard_def)
  note pc = isPathClear_sameBoard [OF b]
  show ?thesis
    unfolding isMoveLegal.simps [of n g'] isMoveLegal.simps [of n g] b ex ey pc assms(2) ..
qed

lemma attackLoop_sameBoard_step:
  assumes "sameBoard g g'" and "\<And>c. isInCheck n g' c = isInCheck n g c"
  shows "attackLoop n g' x y c sqs = attackLoop n g x y c sqs"
proof (induction sqs)
  case Nil
  show ?case by simp
next
  case (Cons s sqs)
  obtain fx fy where s: "s = (fx, fy)" by (cases s)
  have b: "board g' = board g" using assms(1) by (simp add: sameBoard_def)
  show ?case
    unfolding s attackLoop.simps b Cons.IH isMoveLegal_sameBoard_step [OF assms] ..
qed

lemma isInCheck_sameBoard:
  "sameBoard g g' \<Longrightarrow> isInCheck n g' c = isInCheck n g c"
proof (induction n arbitrary: c)
  case 0
  show ?case by simp
next
  case (Suc n)
  have b: "board g' = board g" using Suc.prems by (simp add: sameBoard_def)
  show ?case
    unfolding isInCheck.simps isSquareAttacked.simps findKing_sameBoard [OF b]
      attackLoop_sameBoard_step [OF Suc.prems Suc.IH [OF Suc.prems]] ..
qed



lemma terminalCheck_over:
  assumes "hasLegalMoves n g (activeColor g) = Ret (False, g')"
    and "isInCheck n g (activeColor g) = Ret chk"
  shows "\<exists>g''. terminalCheck n g = Ret (True, g'') \<and> gameOver g''
           \<and> winner g'' = (if chk then colorIndex (opp (activeColor g)) else winner g)
           \<and> board g'' = board g \<and> activeColor g'' = activeColor g"
proof -
  have g': "g' = g" using assms(1) by (rule hasLegalMoves_restores)
  have c: "isInCheck n (g\<lparr>gameOver := True\<rparr>) (activeColor g) = Ret chk"
    using assms(2) isInCheck_sameBoard [of g "g\<lparr>gameOver := True\<rparr>" n "activeColor g"]
    by (simp add: sameBoard_def)
  have t: "terminalCheck n g =
     (if chk then
        (if activeColor g = White
         then Ret (True, g\<lparr>gameOver := True, winner := 0,
                            currentDialog := ''MATE! Give me my money.'',
                            wallet := wallet g - wager g\<rparr>)
         else Ret (True, g\<lparr>gameOver := True, winner := 1,
                            currentDialog := ''MATE! Take the cash.'',
                            wallet := wallet g + wager g\<rparr>))
      else Ret (True, g\<lparr>gameOver := True\<rparr>))"
    using assms(1) c by (simp add: terminalCheck_def g' Let_def)
  show ?thesis
    unfolding t by (cases "activeColor g") (simp_all add: colorIndex_def)
qed

lemma whiteClick_rejected:
  assumes "onBoard gx gy" and "selectedX g \<noteq> - 1"
    and "cellAt g (selectedX g) (selectedY g) = Ret (Some p)"
    and "isMoveLegal n g p (selectedX g) (selectedY g) gx gy = Ret False
         \<or> (isMoveLegal n g p (selectedX g) (selectedY g) gx gy = Ret True
            \<and> isInCheck n (simulateMove g p (selectedX g) (selectedY g) gx gy) White
                = Ret True)"
  shows "whiteClick n g gx gy = Ret (g\<lparr>selectedX := - 1, selectedY := - 1\<rparr>)"
proof -
  from assms(3) have bp: "board g (selectedY g) (selectedX g) = Some p"
    by (auto simp: cellAt_def split: if_splits)
  note u = undoMove_simulateMove [OF bp, of gx gy]
  from assms(1) have r: "gx \<ge> 0 \<and> gx < 8 \<and> gy \<ge> 0 \<and> gy < 8"
    by (simp add: onBoard_def)
  from assms(4) show ?thesis
  proof
    assume "isMoveLegal n g p (selectedX g) (selectedY g) gx gy = Ret False"
    then show ?thesis
      using r assms(2,3) by (simp add: whiteClick_def)
  next
    assume "isMoveLegal n g p (selectedX g) (selectedY g) gx gy = Ret True
            \<and> isInCheck n (simulateMove g p (selectedX g) (selectedY g) gx gy) White
                = Ret True"
    then show ?thesis
      using r assms(2,3) by (simp add: whiteClick_def Let_def u)
  qed
qed

lemma isMoveLegal_moved_king:
  assumes "Type p = King" and "HasMoved p"
  shows "isMoveLegal n g p fx fy tx ty =
     Ret (onBoard tx ty \<and> \<not> ownPieceAt g p tx ty \<and> \<bar>tx - fx\<bar> \<le> 1 \<and> \<bar>ty - fy\<bar> \<le> 1)"
  using assms
  by (auto simp: isMoveLegal.simps onBoard_def ownPieceAt_def Let_def split: option.splits)

lemma stalemate_checks:
  assumes "board g = stalemateBoard"
  shows "isInCheck (Suc 0) (simulateMove g (mkPiece King White True) 7 7 6 6) White = Ret True"
    and "isInCheck (Suc 0) (simulateMove g (mkPiece King White True) 7 7 7 6) White = Ret True"
    and "isInCheck (Suc 0) (simulateMove g (mkPiece King White True) 7 7 6 7) White = Ret True"
    and "isInCheck (Suc 0) g White = Ret False"
  by (simp_all add: eval_simps simulateMove_def assms stalemateBoard_def)

lemma stalemate_apart:
  assumes "board g = stalemateBoard"
  shows "kingsApart 2 g"
proof -
  have "y \<notin> set (unmovedKingRanks g c)" for y c
    unfolding unmovedKingRanks_iff assms
    by (auto simp: stalemateBoard_def mkPiece_def split: if_splits)
  then show ?thesis
    unfolding kingsApart_def by blast
qed

lemma stalemate_no_move:
  assumes "board g = stalemateBoard"
  shows "\<not> hasFullyLegalMove g White"
proof
  assume "hasFullyLegalMove g White"
  then obtain fx fy tx ty p where ob: "onBoard fx fy" "onBoard tx ty"
    and p: "board g fy fx = Some p" "Color p = White"
    and l: "isMoveLegal_returns g p fx fy tx ty True"
    and c: "isInCheck_returns (simulateMove g p fx fy tx ty) White False"
    unfolding hasFullyLegalMove_def fullyLegalMove_def in_squares [symmetric] by blast
  from l obtain n where n: "isMoveLegal n g p fx fy tx ty = Ret True"
    unfolding isMoveLegal_returns_def ..
  from c obtain m where m: "isInCheck m (simulateMove g p fx fy tx ty) White = Ret False"
    unfolding isInCheck_returns_def ..
  from p consider
      (king) "fx = 7" "fy = 7" "p = mkPiece King White True"
    | (pawn) "fx = 0" "fy = 0" "p = mkPiece Pawn White True"
    unfolding assms by (auto simp: stalemateBoard_def mkPiece_def split: if_splits)
  then show False
  proof cases
    case pawn
    have "isMoveLegal n g p fx fy tx ty = Ret (pawnMoveSpec g p fx fy tx ty)"
      using ob(1) by (intro isMoveLegal_pawn) (simp add: pawn mkPiece_def)
    with n have "pawnMoveSpec g p fx fy tx ty" by simp
    with ob(2) show False
      by (auto simp: pawnMoveSpec_def pawn mkPiece_def onBoard_def Let_def)
  next
    case king
    have "isMoveLegal n g p fx fy tx ty =
      Ret (onBoard tx ty \<and> \<not> ownPieceAt g p tx ty \<and> \<bar>tx - fx\<bar> \<le> 1 \<and> \<bar>ty - fy\<bar> \<le> 1)"
      by (intro isMoveLegal_moved_king) (simp_all add: king mkPiece_def)
    with n have k: "\<not> ownPieceAt g p tx ty" "\<bar>tx - 7\<bar> \<le> 1" "\<bar>ty - 7\<bar> \<le> 1"
      by (simp_all add: king)
    from k(1) have "\<not> (tx = 7 \<and> ty = 7)"
      by (auto simp: ownPieceAt_def assms stalemateBoard_def king mkPiece_def)
    with k(2,3) ob(2) have "(tx = 6 \<and> ty = 6) \<or> (tx = 7 \<and> ty = 6) \<or> (tx = 6 \<and> ty = 7)"
      unfolding onBoard_def by arith
    then consider "tx = 6 \<and> ty = 6" | "tx = 7 \<and> ty = 6" | "tx = 6 \<and> ty = 7"
      by blast
    then show False
      using m stalemate_checks(1-3) [OF assms]
      by cases (auto simp: king dest: check_agree)
  qed
qed

lemma stalemate_hasLegalMoves:
  assumes "board g = stalemateBoard" and "2 \<le> n"
  shows "hasLegalMoves n g White = Ret (False, g)"
  using hasLegalMoves_complete [OF stalemate_apart [OF assms(1)] assms(2), of White]
    stalemate_no_move [OF assms(1)]
  by simp

subsection \<open>The heuristic of the opponent\<close>








lemma concat_if_filter:
  "concat (map (\<lambda>b. if P b then [h b] else []) ys) = map h (filter P ys)"
  by (induction ys) auto






















subsection \<open>One frame of the opponent; trial board and applied move\<close>












subsection \<open>A position in which the heuristic does not return\<close>











subsection \<open>An en-passant capture that opens a file\<close>














subsection \<open>An en-passant capture that uncovers the king\<close>








subsection \<open>A position without en passant or castling for Black\<close>




subsection \<open>Unmoved kings stay on their home ranks\<close>

lemma kingsHome_apart: "kingsHome g \<Longrightarrow> kingsApart 7 g"
  unfolding kingsHome_def kingsApart_def by force

lemma noNewUnmovedKing_refl: "noNewUnmovedKing g g"
  by (simp add: noNewUnmovedKing_def)

lemma noNewUnmovedKing_trans:
  "noNewUnmovedKing g g1 \<Longrightarrow> noNewUnmovedKing g1 g2 \<Longrightarrow> noNewUnmovedKing g g2"
  unfolding noNewUnmovedKing_def by blast

lemma kingsHome_kept:
  assumes "kingsHome g" and "noNewUnmovedKing g g'"
  shows "kingsHome g'"
proof -
  have "set (unmovedKingRanks g' c) \<subseteq> set (unmovedKingRanks g c)" for c
    using assms(2) unfolding noNewUnmovedKing_def
    by (auto simp: unmovedKingRanks_iff) blast
  with assms(1) show ?thesis
    unfolding kingsHome_def by blast
qed

lemma kingsHome_NewGame: "kingsHome (NewGame w minutes wal)"
  by (simp add: kingsHome_def unmovedKingRanks_def squares_eq NewGame_def setupBoard_def
      createPiece_def upto8 layout_def typeIndex_def)

lemma noNewUnmovedKing_castleRook:
  "castleRook g p fx fy tx = Ret g1 \<Longrightarrow> noNewUnmovedKing g g1"
  by (auto simp: castleRook_def noNewUnmovedKing_def split: if_splits option.splits)

lemma noNewUnmovedKing_capturePassant:
  "capturePassant g p fy tx ty = Ret g1 \<Longrightarrow> noNewUnmovedKing g g1"
  by (auto simp: capturePassant_def noNewUnmovedKing_def split: if_splits)

lemma noNewUnmovedKing_placePiece:
  "placePiece (setPassant g p fx fy ty) p fx fy tx ty = Ret g1 \<Longrightarrow> noNewUnmovedKing g g1"
  by (auto simp: placePiece_def noNewUnmovedKing_def Let_def split: if_splits)

lemma noNewUnmovedKing_executeMove:
  assumes "executeMove g fx fy tx ty = Ret g'"
  shows "noNewUnmovedKing g g'"
proof -
  from assms obtain p where c: "cellAt g fx fy = Ret (Some p)"
    by (auto simp: executeMove_def split: option.splits sum.splits)
  from assms obtain g1 g2 where
    "castleRook g p fx fy tx = Ret g1" "capturePassant g1 p fy tx ty = Ret g2"
    "placePiece (setPassant g2 p fx fy ty) p fx fy tx ty = Ret g'"
    unfolding executeMove_Ret [OF c] by blast
  then show ?thesis
    by (blast intro: noNewUnmovedKing_trans noNewUnmovedKing_castleRook
        noNewUnmovedKing_capturePassant noNewUnmovedKing_placePiece)
qed

lemma noNewUnmovedKing_promoteTo:
  assumes "promoteTo g t sid = Ret g'" and "t \<noteq> King"
  shows "noNewUnmovedKing g g'"
  using assms
  by (auto simp: promoteTo_def noNewUnmovedKing_def split: option.splits sum.splits if_splits)

lemma kingsHome_executeMove:
  "kingsHome g \<Longrightarrow> executeMove g fx fy tx ty = Ret g' \<Longrightarrow> kingsHome g'"
  by (blast intro: kingsHome_kept noNewUnmovedKing_executeMove)

lemma kingsHome_promotionKeys:
  assumes "kingsHome g" and "promotionKeys inp g = Ret g'"
  shows "kingsHome g'"
proof -
  have step: "noNewUnmovedKing a b"
    if "(if k then promoteTo a t sid else Ret a) = Ret b" and "t \<noteq> King" for a b k t sid
    using that by (auto simp: noNewUnmovedKing_refl noNewUnmovedKing_promoteTo split: if_splits)
  from assms(2) obtain g1 g2 g3 g4 where
    "(if keyQ inp then promoteTo g Queen 10 else Ret g) = Ret g1"
    "(if keyR inp then promoteTo g1 Rook 8 else Ret g1) = Ret g2"
    "(if keyB inp then promoteTo g2 Bishop 7 else Ret g2) = Ret g3"
    "(if keyN inp then promoteTo g3 Knight 9 else Ret g3) = Ret g4"
    "g' = (if \<not> promoting g4 then g4\<lparr>activeColor := Black\<rparr> else g4)"
    unfolding promotionKeys_def bindR_eq_Ret by auto
  then have "noNewUnmovedKing g g4" "board g' = board g4"
    by (auto intro: noNewUnmovedKing_trans dest!: step)
  then have "noNewUnmovedKing g g'"
    by (simp add: noNewUnmovedKing_def)
  with assms(1) show ?thesis
    by (rule kingsHome_kept)
qed

lemma noNewUnmovedKing_board: "board g' = board g \<Longrightarrow> noNewUnmovedKing g g'"
  by (simp add: noNewUnmovedKing_def)

lemma terminalCheck_board:
  assumes "terminalCheck n g = Ret (d, g1)"
  shows "board g1 = board g"
proof -
  from assms obtain has g0 where h: "hasLegalMoves n g (activeColor g) = Ret (has, g0)"
    by (auto simp: terminalCheck_def bindR_eq_Ret)
  then have g0: "g0 = g" by (rule hasLegalMoves_restores)
  from assms show ?thesis
    unfolding terminalCheck_def h g0
    by (auto simp: bindR_eq_Ret Let_def split: if_splits)
qed

lemma whiteClick_kings:
  assumes "whiteClick n g gx gy = Ret g'"
  shows "noNewUnmovedKing g g'"
proof (cases "gx \<ge> 0 \<and> gx < 8 \<and> gy \<ge> 0 \<and> gy < 8")
  case False
  with assms show ?thesis
    by (auto simp: whiteClick_def noNewUnmovedKing_refl)
next
  case r: True
  show ?thesis
  proof (cases "selectedX g = - 1")
    case True
    with assms r have "board g' = board g"
      by (auto simp: whiteClick_def split: option.splits if_splits)
    then show ?thesis by (rule noNewUnmovedKing_board)
  next
    case False
    with assms r obtain p where c: "cellAt g (selectedX g) (selectedY g) = Ret (Some p)"
      by (auto simp: whiteClick_def split: option.splits sum.splits)
    then have bp: "board g (selectedY g) (selectedX g) = Some p"
      by (auto simp: cellAt_def split: if_splits)
    note u = undoMove_simulateMove [OF bp, of gx gy]
    from assms r False obtain g3 where
      g3: "g' = g3\<lparr>selectedX := - 1, selectedY := - 1\<rparr>" and
      "g3 = g \<or> executeMove g (selectedX g) (selectedY g) gx gy = Ret g3"
      unfolding whiteClick_def c
      by (auto simp: bindR_eq_Ret Let_def u split: if_splits)
    then have "noNewUnmovedKing g g3"
      by (auto simp: noNewUnmovedKing_refl noNewUnmovedKing_executeMove)
    then show ?thesis
      by (simp add: g3 noNewUnmovedKing_def)
  qed
qed

lemma scriptLoop_kings:
  "scriptLoop n g ms = Ret (played, g') \<Longrightarrow> noNewUnmovedKing g g'"
proof (induction ms)
  case Nil
  then show ?case by (simp add: noNewUnmovedKing_refl)
next
  case (Cons m ms)
  obtain m0 m1 m2 m3 where m: "m = (m0, m1, m2, m3)" by (cases m)
  show ?case
  proof (cases "board g m1 m0")
    case None
    with Cons show ?thesis by (simp add: m)
  next
    case (Some p)
    note u = undoMove_simulateMove [OF Some, of m2 m3]
    from Cons Some show ?thesis
      by (auto simp: m Let_def u noNewUnmovedKing_executeMove
          split: if_splits option.splits sum.splits)
  qed
qed

lemma smartToLoop_restores:
  assumes "board g fy fx = Some p"
  shows "smartToLoop n g p fx fy sqs acc = Ret (ms, g') \<Longrightarrow> g' = g"
proof (induction sqs arbitrary: acc)
  case Nil
  then show ?case by simp
next
  case (Cons s sqs)
  obtain tx ty where s: "s = (tx, ty)" by (cases s)
  have u: "undoMove (simulateMove g p fx fy tx ty) p orig fx fy tx ty = g"
    if "board g ty tx = orig" for orig
    using undoMove_simulateMove [OF assms, of tx ty] that by simp
  from Cons.prems show ?case
    by (auto simp: s Let_def u dest: Cons.IH split: if_splits option.splits sum.splits)
qed

lemma smartFromLoop_restores:
  "smartFromLoop n g sqs acc = Ret (ms, g') \<Longrightarrow> g' = g"
proof (induction sqs arbitrary: acc)
  case Nil
  then show ?case by simp
next
  case (Cons s sqs)
  obtain fx fy where s: "s = (fx, fy)" by (cases s)
  show ?case
  proof (cases "board g fy fx")
    case None
    with Cons show ?thesis by (simp add: s)
  next
    case (Some p)
    from Cons.prems Some show ?thesis
      by (auto simp: s dest: Cons.IH smartToLoop_restores [OF Some]
          split: if_splits option.splits sum.splits)
  qed
qed

lemma frankHeuristic_kings:
  assumes "frankHeuristic n g = Ret g'"
  shows "noNewUnmovedKing g g'"
proof -
  from assms obtain ms g1 where s: "smartFromLoop n g squares [] = Ret (ms, g1)"
    by (auto simp: frankHeuristic_def bindR_eq_Ret)
  then have g1: "g1 = g" by (rule smartFromLoop_restores)
  from assms show ?thesis
    unfolding frankHeuristic_def s g1
    by (auto simp: Let_def noNewUnmovedKing_refl noNewUnmovedKing_executeMove
        split: list.splits)
qed

lemma blackTurn_kings:
  assumes "blackTurn n g = Ret g'"
  shows "noNewUnmovedKing g g'"
proof -
  have t: "noNewUnmovedKing g (thinkTick g)"
    by (rule noNewUnmovedKing_board) (simp add: thinkTick_def Let_def)
  have b: "blackTurn n g =
     (if frankThinkTime (thinkTick g) \<ge> thinkLimit (thinkTick g) then
        bindR (scriptLoop n (thinkTick g) script) (\<lambda>(played, g4).
          if played then Ret g4 else frankHeuristic n g4)
      else Ret (thinkTick g))"
    by (simp add: blackTurn_def thinkTick_def Let_def)
  show ?thesis
  proof (cases "frankThinkTime (thinkTick g) \<ge> thinkLimit (thinkTick g)")
    case False
    with assms b t show ?thesis by simp
  next
    case True
    with assms b obtain played g4 where
      s: "scriptLoop n (thinkTick g) script = Ret (played, g4)" and
      r: "(if played then Ret g4 else frankHeuristic n g4) = Ret g'"
      by (auto simp: bindR_eq_Ret)
    from r have "noNewUnmovedKing g4 g'"
      by (auto simp: noNewUnmovedKing_refl frankHeuristic_kings split: if_splits)
    with t scriptLoop_kings [OF s] show ?thesis
      by (blast intro: noNewUnmovedKing_trans)
  qed
qed

lemma whiteTurn_kings:
  assumes "whiteTurn n inp g = Ret g'"
  shows "noNewUnmovedKing g g'"
proof -
  let ?g1 = "g\<lparr>whiteTime := whiteTime g - 1\<rparr>"
  let ?g2 = "if whiteTime ?g1 \<le> 0
             then ?g1\<lparr>gameOver := True, winner := 0, wallet := wallet ?g1 - wager ?g1\<rparr>
             else ?g1"
  have t: "noNewUnmovedKing g ?g2"
    by (rule noNewUnmovedKing_board) simp
  from assms have "g' = ?g2 \<or> (\<exists>gx gy. whiteClick n ?g2 gx gy = Ret g')"
    by (auto simp: whiteTurn_def Let_def split: if_splits)
  then show ?thesis
  proof
    assume "g' = ?g2"
    with t show ?thesis by simp
  next
    assume "\<exists>gx gy. whiteClick n ?g2 gx gy = Ret g'"
    then obtain gx gy where "whiteClick n ?g2 gx gy = Ret g'" by blast
    from noNewUnmovedKing_trans [OF t whiteClick_kings [OF this]] show ?thesis .
  qed
qed

lemma kingsHome_Update:
  assumes "kingsHome g" and "Update n inp g = Ret g'"
  shows "kingsHome g'"
proof -
  consider (start) "\<not> gameStarted g" | (over) "gameStarted g" "gameOver g"
    | (prom) "gameStarted g" "\<not> gameOver g" "promoting g"
    | (play) "gameStarted g" "\<not> gameOver g" "\<not> promoting g"
    by blast
  then show ?thesis
  proof cases
    case start
    with assms show ?thesis
      by (auto simp: Update_def Let_def kingsHome_NewGame split: if_splits)
  next
    case over
    with assms show ?thesis
      by (auto simp: Update_def kingsHome_NewGame split: if_splits)
  next
    case prom
    with assms have "promotionKeys inp g = Ret g'"
      by (simp add: Update_def)
    with assms(1) show ?thesis by (rule kingsHome_promotionKeys)
  next
    case play
    with assms(2) obtain d g1 where
      t: "terminalCheck n g = Ret (d, g1)" and
      r: "(if d then Ret g1 else if activeColor g1 = White then whiteTurn n inp g1
           else blackTurn n g1) = Ret g'"
      by (auto simp: Update_def bindR_eq_Ret)
    have 1: "noNewUnmovedKing g g1"
      using terminalCheck_board [OF t] by (rule noNewUnmovedKing_board)
    from r have "noNewUnmovedKing g1 g'"
      by (auto simp: noNewUnmovedKing_refl whiteTurn_kings blackTurn_kings split: if_splits)
    with 1 have "noNewUnmovedKing g g'"
      by (rule noNewUnmovedKing_trans)
    with assms(1) show ?thesis by (rule kingsHome_kept)
  qed
qed

section \<open>The claims\<close>

text \<open>
  C3. For a pawn \<open>p\<close> standing on a square \<open>(fx, fy)\<close> of the board, \<open>isMoveLegal\<close>
  returns, and returns true exactly for the moves of the pawn rule: one square forward
  (White towards rank index 0, Black towards 7) onto an empty square, two squares
  forward from rank index 6 (White) or 1 (Black) with the square in between and the
  destination both empty, or one square diagonally forward onto an enemy piece or onto
  the en-passant target; the destination is on the board and holds no piece of the
  pawn's colour.
\<close>

theorem pawn_move_rule:
  assumes "Type p = Pawn" and "onBoard fx fy"
  shows "isMoveLegal n g p fx fy tx ty = Ret (pawnMoveSpec g p fx fy tx ty)"
  using assms by (rule isMoveLegal_pawn)

theorem pawn_move_rule_witness:
  "isMoveLegal 0 passantGame (mkPiece Pawn White True) 4 3 3 2 = Ret True
   \<and> isMoveLegal 0 passantGame (mkPiece Pawn White True) 4 3 4 1 = Ret False"
  using pawn_move_rule [of "mkPiece Pawn White True" 4 3 0 passantGame 3 2]
    pawn_move_rule [of "mkPiece Pawn White True" 4 3 0 passantGame 4 1]
  by (simp add: mkPiece_def onBoard_def pawnMoveSpec_def passantGame_def)

text \<open>
  C5. When \<open>executeMove\<close> carries out a diagonal pawn move onto the en-passant target,
  it empties the square behind the destination (the file of the destination, the rank
  of the origin); the destination then holds the capturing pawn, the origin is empty,
  and no other cell changes.
\<close>

theorem en_passant_removes_pawn_behind:
  assumes "cellAt g fx fy = Ret (Some p)" and "Type p = Pawn"
    and "tx = epX g" and "ty = epY g" and "onBoard tx ty"
    and "\<bar>tx - fx\<bar> = 1" and "\<bar>ty - fy\<bar> = 1"
  shows "\<exists>g' q. executeMove g fx fy tx ty = Ret g'
           \<and> board g' fy tx = None
           \<and> board g' ty tx = Some q \<and> Color q = Color p
           \<and> board g' fy fx = None
           \<and> (\<forall>x y. (x, y) \<noteq> (tx, fy) \<and> (x, y) \<noteq> (tx, ty) \<and> (x, y) \<noteq> (fx, fy)
                 \<longrightarrow> board g' y x = board g y x)"
proof -
  from assms(1) have ob: "onBoard fx fy" and bp: "board g fy fx = Some p"
    by (auto simp: cellAt_def split: if_splits)
  from ob assms(5) have obtf: "onBoard tx fy"
    by (simp add: onBoard_def)
  have c1: "castleRook g p fx fy tx = Ret g"
    using assms(2) by (simp add: castleRook_def)
  have c2: "capturePassant g p fy tx ty = Ret (setCell g tx fy None)"
    using assms(2-4) obtf by (simp add: capturePassant_def)
  show ?thesis
    using assms(5-7)
    by (auto simp: executeMove_def assms(1) c1 c2 placePiece_def Let_def)
qed

theorem en_passant_removes_pawn_behind_witness:
  "\<exists>g' q. executeMove passantGame 4 3 3 2 = Ret g'
           \<and> board passantGame 3 3 = Some (mkPiece Pawn Black True)
           \<and> board g' 3 3 = None
           \<and> board g' 2 3 = Some q \<and> Color q = White"
proof -
  have "\<exists>g' q. executeMove passantGame 4 3 3 2 = Ret g'
           \<and> board g' 3 3 = None
           \<and> board g' 2 3 = Some q \<and> Color q = Color (mkPiece Pawn White True)
           \<and> board g' 3 4 = None
           \<and> (\<forall>x y. (x, y) \<noteq> (3, 3) \<and> (x, y) \<noteq> (3, 2) \<and> (x, y) \<noteq> (4, 3)
                 \<longrightarrow> board g' y x = board passantGame y x)"
    by (rule en_passant_removes_pawn_behind [of passantGame 4 3 "mkPiece Pawn White True" 3 2])
       (simp_all add: passantGame_def cellAt_def onBoard_def mkPiece_def)
  then show ?thesis
    by (auto simp: passantGame_def mkPiece_def)
qed

text \<open>
  C6. After a call of \<open>executeMove\<close> that returns, the en-passant target is the square the
  pawn skipped (the file of the origin, the rank midway between origin and destination)
  if the move was a pawn move over two ranks, and is (-1, -1), no square, otherwise.
  The target therefore depends on the last executed move only: one set by a
  double step is gone after the next call.
\<close>

theorem en_passant_target_after_move:
  assumes "executeMove g fx fy tx ty = Ret g'" and "cellAt g fx fy = Ret (Some p)"
  shows "(epX g', epY g') =
           (if Type p = Pawn \<and> \<bar>ty - fy\<bar> = 2 then (fx, (fy + ty) div 2) else (- 1, - 1))"
proof -
  from assms obtain g1 g2 where
    "placePiece (setPassant g2 p fx fy ty) p fx fy tx ty = Ret g'"
    by (auto simp: executeMove_Ret)
  then have "epX g' = epX (setPassant g2 p fx fy ty)" "epY g' = epY (setPassant g2 p fx fy ty)"
    by (auto dest: placePiece_ep)
  then show ?thesis
    by (simp add: setPassant_ep)
qed

theorem en_passant_target_after_move_witness:
  "\<exists>g'. executeMove passantGame 4 3 3 2 = Ret g' \<and> (epX g', epY g') = (- 1, - 1)"
proof -
  have c: "cellAt passantGame 4 3 = Ret (Some (mkPiece Pawn White True))"
    by (simp add: passantGame_def cellAt_def onBoard_def)
  have ep: "epX passantGame = 3" "epY passantGame = 2"
    by (simp_all add: passantGame_def)
  obtain g' where e: "executeMove passantGame 4 3 3 2 = Ret g'"
    by (simp add: executeMove_def c ep castleRook_def capturePassant_def placePiece_def
        mkPiece_def onBoard_def Let_def)
  from en_passant_target_after_move [OF e c] have "(epX g', epY g') = (- 1, - 1)"
    by simp
  with e show ?thesis
    by blast
qed

text \<open>
  C9. A destination off the board is simply illegal: \<open>isMoveLegal\<close> returns false for
  it whatever the board holds and with no budget at all, and a click that falls outside
  the 8 by 8 grid returns the game as it is, for every game, without a panic.
\<close>

theorem off_board_rejected:
  "\<not> onBoard tx ty \<Longrightarrow>
   isMoveLegal n g p fx fy tx ty = Ret False \<and> whiteClick n g tx ty = Ret g"
  by (auto simp: onBoard_def isMoveLegal.simps whiteClick_def)

theorem off_board_rejected_witness:
  "isMoveLegal 0 passantGame (mkPiece Pawn White True) 4 3 8 2 = Ret False
   \<and> whiteClick 0 passantGame 8 2 = Ret passantGame"
  using off_board_rejected [of 8 2 0 passantGame "mkPiece Pawn White True" 4 3]
  by (simp add: onBoard_def)

text \<open>
  C4. For a king \<open>p\<close> on a square \<open>(fx, fy)\<close> of the board and a destination on the
  board that holds no piece of its colour, \<open>isMoveLegal\<close> returns true exactly when the
  move is one step in any direction, or is along the rank over two files with the
  king's \<open>HasMoved\<close> false, \<open>isInCheck\<close> returning false for the king's colour, a rook
  with \<open>HasMoved\<close> false in the corner of that rank on the side of travel and only
  empty cells between king and rook. Whether the cells the king crosses or reaches
  are attacked does not occur in the condition.
\<close>

theorem king_move_rule:
  assumes "Type p = King" and "onBoard fx fy" and "onBoard tx ty"
    and "\<not> ownPieceAt g p tx ty"
  shows "isMoveLegal_returns g p fx fy tx ty True \<longleftrightarrow> kingMoveSpec g p fx fy tx ty"
  unfolding isMoveLegal_returns_def kingMoveSpec_def isInCheck_returns_def
    isMoveLegal_king [OF assms]
  by auto

theorem king_move_rule_witness:
  "isMoveLegal_returns castleGame (mkPiece King White False) 4 7 6 7 True
   \<and> isSquareAttacked_returns castleGame 5 7 Black True"
proof -
  have "isInCheck_returns castleGame White False"
    unfolding isInCheck_returns_def using castleGame_not_in_check by blast
  then have "kingMoveSpec castleGame (mkPiece King White False) 4 7 6 7"
    by (simp add: kingMoveSpec_def clearBetween_def castleGame_def mkPiece_def
        upto_rec_numeral)
  moreover have "isSquareAttacked_returns castleGame 5 7 Black True"
    unfolding isSquareAttacked_returns_def using castleGame_f1_attacked by blast
  ultimately show ?thesis
    using king_move_rule [of "mkPiece King White False" 4 7 6 7 castleGame]
    by (simp add: mkPiece_def onBoard_def ownPieceAt_def castleGame_def)
qed




text \<open>
  C1, as the claim states it, fails on a board that play cannot reach: with an unmoved
  white king on c8 and an unmoved black king on e8, the white king has the fully legal
  move to b8, but the first destination \<open>hasLegalMoves\<close> tries for it is a8, two files
  away, where \<open>isMoveLegal\<close> asks \<open>isInCheck\<close> and the recursion between the two
  kings never ends; \<open>hasLegalMoves\<close> does not return.
\<close>

theorem hasLegalMoves_misses_move_side_kings:
  "\<not> (hasLegalMoves_returns sideKingsGame White True
        \<longleftrightarrow> hasFullyLegalMove sideKingsGame White)"
proof -
  have "hasFullyLegalMove sideKingsGame White"
    using sideKings_move by (rule hasFullyLegalMoveI [rotated 2]) (simp_all add: onBoard_def)
  moreover have "\<not> hasLegalMoves_returns sideKingsGame White True"
    by (simp add: hasLegalMoves_returns_def sideKings_hasLegalMoves)
  ultimately show ?thesis by simp
qed

text \<open>
  C1, amended. On every board, \<open>hasLegalMoves\<close> returns true only if some piece of
  colour \<open>c\<close> on the board has a destination on the board for which \<open>isMoveLegal\<close> returns
  true and after whose simulation \<open>isInCheck\<close> returns false for \<open>c\<close>: never on the
  strength of a move that leaves the own king in check. On every board on which each
  unmoved white king stands at least two ranks beyond each unmoved black king (every
  position reached in play), \<open>hasLegalMoves\<close> returns, and returns true exactly when
  such a move exists. Whenever it returns, the game is as it was before the call.
\<close>

theorem hasLegalMoves_iff_fully_legal_move:
  "(hasLegalMoves_returns g c True \<longrightarrow> hasFullyLegalMove g c)
   \<and> (kingsApart 2 g \<longrightarrow> hasLegalMoves_returns g c (hasFullyLegalMove g c))
   \<and> (hasLegalMoves n g c = Ret (b, g') \<longrightarrow> g' = g)"
proof (intro conjI impI)
  assume "hasLegalMoves_returns g c True"
  then show "hasFullyLegalMove g c"
    by (auto simp: hasLegalMoves_returns_def dest: hasLegalMoves_sound)
next
  assume "kingsApart 2 g"
  from hasLegalMoves_complete [OF this, of 2 c]
  show "hasLegalMoves_returns g c (hasFullyLegalMove g c)"
    unfolding hasLegalMoves_returns_def by blast
next
  assume "hasLegalMoves n g c = Ret (b, g')"
  then show "g' = g" by (rule hasLegalMoves_restores)
qed

theorem hasLegalMoves_iff_fully_legal_move_witness:
  "kingsApart 2 castleGame \<and> hasFullyLegalMove castleGame White
   \<and> (\<exists>n. hasLegalMoves n castleGame White = Ret (True, castleGame))"
proof -
  have f: "hasFullyLegalMove castleGame White"
    using castleGame_move by (rule hasFullyLegalMoveI [rotated 2]) (simp_all add: onBoard_def)
  with hasLegalMoves_iff_fully_legal_move [of castleGame White] castleGame_apart
  have "hasLegalMoves_returns castleGame White True"
    by simp
  then obtain n g' where r: "hasLegalMoves n castleGame White = Ret (True, g')"
    unfolding hasLegalMoves_returns_def by blast
  with hasLegalMoves_iff_fully_legal_move [of castleGame White n True g']
  have "g' = castleGame"
    by simp
  with r f castleGame_apart show ?thesis
    by blast
qed

text \<open>
  C2, as the claim states it, fails while a promotion is pending: White has pushed a
  pawn to a8 and has not yet chosen the piece, the side to move is still White, and
  the white king on h1 has no legal move; \<open>Update\<close> returns at the promotion gate
  (line 311) before it looks for legal moves, and the game is not marked over. The
  gates of lines 296 and 305 (game not started, game already over) act the same way.
\<close>

theorem no_game_over_during_promotion:
  "hasLegalMoves 2 promotionGame (activeColor promotionGame) = Ret (False, promotionGame)
   \<and> Update 2 noInput promotionGame = Ret promotionGame
   \<and> \<not> gameOver promotionGame"
proof -
  have b: "board promotionGame = stalemateBoard"
    by (simp add: promotionGame_def stalemateGame_def)
  have a: "activeColor promotionGame = White" "gameStarted promotionGame"
    "\<not> gameOver promotionGame" "promoting promotionGame"
    by (simp_all add: promotionGame_def stalemateGame_def clearGame_def NewGame_def
        setupBoard_def createPiece_def upto8)
  have "Update 2 noInput promotionGame = Ret promotionGame"
    using a by (simp add: Update_def promotionKeys_def noInput_def)
  with stalemate_hasLegalMoves [OF b, of 2] a show ?thesis
    by simp
qed

text \<open>
  C2, amended. In a game that is started, not over and without a pending promotion, if
  \<open>hasLegalMoves\<close> returns false for the side to move then \<open>Update\<close> marks the game
  over and leaves board and side to move as they are; if \<open>isInCheck\<close> returns true for
  that side the winner is the other side (0 for Black, 1 for White), and if it returns
  false the winner field keeps the value it had.
\<close>

theorem no_legal_move_ends_game:
  assumes "gameStarted g" and "\<not> gameOver g" and "\<not> promoting g"
    and "hasLegalMoves n g (activeColor g) = Ret (False, g')"
    and "isInCheck n g (activeColor g) = Ret chk"
  shows "\<exists>g''. Update n inp g = Ret g'' \<and> gameOver g''
           \<and> winner g'' = (if chk then colorIndex (opp (activeColor g)) else winner g)
           \<and> board g'' = board g \<and> activeColor g'' = activeColor g"
proof -
  from terminalCheck_over [OF assms(4,5)] obtain g'' where
    t: "terminalCheck n g = Ret (True, g'')" and
    r: "gameOver g''"
       "winner g'' = (if chk then colorIndex (opp (activeColor g)) else winner g)"
       "board g'' = board g" "activeColor g'' = activeColor g"
    by blast
  have "Update n inp g = Ret g''"
    using assms(1-3) by (simp add: Update_def t)
  with r show ?thesis by blast
qed

theorem no_legal_move_ends_game_witness:
  "\<exists>g''. Update 2 noInput stalemateGame = Ret g'' \<and> gameOver g'' \<and> winner g'' = - 1
         \<and> \<not> gameOver stalemateGame"
proof -
  have b: "board stalemateGame = stalemateBoard"
    by (simp add: stalemateGame_def)
  have a: "activeColor stalemateGame = White" "gameStarted stalemateGame"
    "\<not> gameOver stalemateGame" "\<not> promoting stalemateGame" "winner stalemateGame = - 1"
    by (simp_all add: stalemateGame_def clearGame_def NewGame_def
        setupBoard_def createPiece_def upto8)
  have h: "hasLegalMoves 2 stalemateGame (activeColor stalemateGame)
             = Ret (False, stalemateGame)"
    using stalemate_hasLegalMoves [OF b, of 2] a(1) by simp
  have c: "isInCheck 2 stalemateGame (activeColor stalemateGame) = Ret False"
    using isInCheck_fuel_mono [OF _ stalemate_checks(4) [OF b], of 2] a(1) by simp
  from no_legal_move_ends_game [OF a(2-4) h c, of noInput] a(3,5) show ?thesis
    by auto
qed





end
